theory Spec2Isabelle
  imports Main "HOL-Library.Multiset"
begin

section \<open>Classified log tables\<close>

text \<open>
  A row of the frame returned by \<open>process_all_logs_for_case\<close>
  (processing/log_parser.py). \<open>Timestamp\<close> is the instant in seconds (the log grammar
  has one-second resolution).
\<close>

record parsed_log =
  Timestamp :: int
  Level :: string
  Message :: string
  file_name :: string
  line_number :: int
  log :: string
  Generalized_Message :: string

text \<open>
  A row of the \<open>classified_logs\<close> frame: the parsed row plus the two columns stamped
  by the external classifier; ids are Python integers.
\<close>

record log_record = parsed_log +
  final_anomaly_id :: int
  final_problem_id :: int

text \<open>
  \<open>DataFrame.drop_duplicates(subset=..., keep='first')\<close>: rows are visited in frame
  order and a row is kept exactly when the value of its \<open>subset\<close> columns has not
  been seen on an earlier row.
\<close>

fun drop_duplicates_seen :: "('a \<Rightarrow> 'k) \<Rightarrow> 'k list \<Rightarrow> 'a list \<Rightarrow> 'a list" where
  "drop_duplicates_seen cols seen [] = []"
| "drop_duplicates_seen cols seen (r # rs) =
     (if cols r \<in> set seen then drop_duplicates_seen cols seen rs
      else r # drop_duplicates_seen cols (cols r # seen) rs)"

definition drop_duplicates :: "('a \<Rightarrow> 'k) \<Rightarrow> 'a list \<Rightarrow> 'a list" where
  "drop_duplicates cols rows = drop_duplicates_seen cols [] rows"

text \<open>The column pair used as the de-duplication key of reportable WARNINGs.\<close>

definition anomaly_problem_pair :: "log_record \<Rightarrow> int \<times> int" where
  "anomaly_problem_pair r = (final_anomaly_id r, final_problem_id r)"

text \<open>
  The row mask \<open>(Level == 'WARNING') & (final_problem_id != 0)\<close>, used by the
  orchestrator and by \<open>calculate_impact_metrics\<close>.
\<close>

definition is_reportable_warning :: "log_record \<Rightarrow> bool" where
  "is_reportable_warning r = (Level r = ''WARNING'' \<and> final_problem_id r \<noteq> 0)"

text \<open>
  orchestrator.py, \<open>run_full_analysis_from_zip_bytes\<close>, stage 10: the reportable
  WARNINGs, de-duplicated on \<open>(final_anomaly_id, final_problem_id)\<close> when the
  selection is not empty.
\<close>

definition reportable_warnings :: "log_record list \<Rightarrow> log_record list" where
  "reportable_warnings classified_logs =
     (let selected = filter is_reportable_warning classified_logs
      in if selected = [] then []
         else drop_duplicates anomaly_problem_pair selected)"

text \<open>
  \<open>Series.unique()\<close>: the distinct values in order of first appearance.
\<close>

definition unique :: "'a list \<Rightarrow> 'a list" where
  "unique xs = drop_duplicates (\<lambda>x. x) xs"

text \<open>
  \<open>DataFrame.sort_values(by=col)\<close> and \<open>sort_values(by=col, ascending=False)\<close>.
  The source passes no \<open>kind\<close>, so pandas promises a permutation of the rows ordered
  by the column and nothing about rows with equal keys; the model fixes one such order
  (insertion order among equal keys), and no theorem below depends on that choice.
\<close>

definition sort_values :: "('a \<Rightarrow> int) \<Rightarrow> 'a list \<Rightarrow> 'a list" where
  "sort_values col rows = sort_key col rows"

definition sort_values_descending :: "('a \<Rightarrow> int) \<Rightarrow> 'a list \<Rightarrow> 'a list" where
  "sort_values_descending col rows = sort_key (\<lambda>r. - col r) rows"

section \<open>Characters\<close>

text \<open>
  Strings are ASCII text. The character classes are those of Python's \<open>re\<close> module
  and of \<open>str\<close> on ASCII code points: \<open>\d\<close> is \<open>[0-9]\<close>, \<open>\w\<close> is
  \<open>[a-zA-Z0-9_]\<close>, and \<open>\s\<close> (also what \<open>str.strip()\<close> removes) is tab, line
  feed, vertical tab, form feed, carriage return, the four separators
  \<open>0x1C\<close>..\<open>0x1F\<close>, and the space.

  The source compiles its patterns for \<open>str\<close> without \<open>re.ASCII\<close>, so in Python
  \<open>\w\<close>, \<open>\s\<close>, \<open>\b\<close> and \<open>str.lower()\<close> follow the Unicode database: a
  letter or digit outside ASCII is a word character there and is none here. The classes
  below agree with Python's on the code points below 128 and are not meant for any
  other; every statement about \<open>generalize_message\<close> is made for strings of ASCII
  characters, \<open>list_all is_ascii\<close>.
\<close>

definition ascii_uppercase :: string where
  "ascii_uppercase = ''ABCDEFGHIJKLMNOPQRSTUVWXYZ''"

definition ascii_lowercase :: string where
  "ascii_lowercase = ''abcdefghijklmnopqrstuvwxyz''"

definition digits :: string where
  "digits = ''0123456789''"

definition is_digit :: "char \<Rightarrow> bool" where
  "is_digit c = (c \<in> set digits)"

text \<open>A character is ASCII when its code is below 128.\<close>

definition is_ascii :: "char \<Rightarrow> bool" where
  "is_ascii c = (\<not> digit7 c)"

definition is_word :: "char \<Rightarrow> bool" where
  "is_word c = (c \<in> set (ascii_lowercase @ ascii_uppercase @ digits @ ''_''))"

definition is_space :: "char \<Rightarrow> bool" where
  "is_space c =
     (c \<in> set [CHR 0x09, CHR 0x0A, CHR 0x0B, CHR 0x0C, CHR 0x0D,
                CHR 0x1C, CHR 0x1D, CHR 0x1E, CHR 0x1F, CHR '' ''])"

text \<open>\<open>str.lower()\<close> on one ASCII character.\<close>

definition lower_char :: "char \<Rightarrow> char" where
  "lower_char c =
     (case map_of (zip ascii_uppercase ascii_lowercase) c of Some l \<Rightarrow> l | None \<Rightarrow> c)"

text \<open>Python exceptions that the modelled code can raise.\<close>

datatype py_error =
    IndexError
  | FileNotFoundError string
  | ValueError_unsupported_format string
  | ReaderError string

section \<open>knowledge\_base.py\<close>

subsection \<open>Regular-expression substitution\<close>

text \<open>
  \<open>re.sub(pattern, repl, text)\<close> scans the text from the left. At each position it asks
  whether the pattern matches there; a match is replaced by \<open>repl\<close> and the scan
  resumes behind it, otherwise the character is copied. A pattern is given by its
  matcher: from the character before the position (\<open>None\<close> at the start of the text,
  needed for \<open>\b\<close>) and the text from the position on, the length of the match the
  backtracking engine finds there. No pattern of this module matches the empty string,
  so a matcher never answers \<open>Some 0\<close>; the scan copies the character in that case.
\<close>

type_synonym matcher = "char option \<Rightarrow> string \<Rightarrow> nat option"

function re_sub :: "matcher \<Rightarrow> string \<Rightarrow> char option \<Rightarrow> string \<Rightarrow> string" where
  "re_sub m repl prev [] = []"
| "re_sub m repl prev (c # cs) =
     (case m prev (c # cs) of
        None \<Rightarrow> c # re_sub m repl (Some c) cs
      | Some n \<Rightarrow>
          if n = 0 then c # re_sub m repl (Some c) cs
          else repl @ re_sub m repl (Some ((c # cs) ! (min n (length (c # cs)) - 1)))
                        (drop n (c # cs)))"
  by pat_completeness auto
termination
  by (relation "measure (\<lambda>(m, repl, prev, t). length t)") auto

text \<open>\<open>re.search(pattern, text) is not None\<close>: the pattern matches at some position.\<close>

fun re_search :: "matcher \<Rightarrow> char option \<Rightarrow> string \<Rightarrow> bool" where
  "re_search m prev [] = False"
| "re_search m prev (c # cs) = (m prev (c # cs) \<noteq> None \<or> re_search m (Some c) cs)"

text \<open>
  \<open>\b\<close> in front of a word character holds when the character before it is no word
  character, or at the start of the text.
\<close>

definition word_before :: "char option \<Rightarrow> bool" where
  "word_before prev = (case prev of None \<Rightarrow> False | Some p \<Rightarrow> is_word p)"

text \<open>
  \<open>\b\<close> behind a word character holds when the text ends there or goes on with a
  character that is no word character.
\<close>

definition boundary_after :: "string \<Rightarrow> bool" where
  "boundary_after rest = (case rest of [] \<Rightarrow> True | c # _ \<Rightarrow> \<not> is_word c)"

definition digit_run :: "string \<Rightarrow> nat" where
  "digit_run t = length (takeWhile is_digit t)"

text \<open>
  \<open>\d{1,3}\.\<close>: the digits in front of the dot are a whole run of one to three
  digits (a shorter prefix of the run is followed by a digit, not by the dot).
\<close>

definition octet_dot :: "string \<Rightarrow> nat option" where
  "octet_dot t =
     (let n = digit_run t
      in if 1 \<le> n \<and> n \<le> 3 \<and> (case drop n t of [] \<Rightarrow> False | c # _ \<Rightarrow> c = CHR ''.'')
         then Some (n + 1) else None)"

text \<open>\<open>\b\d{1,3}\.\d{1,3}\.\d{1,3}\.\d{1,3}\b\<close>\<close>

definition ip_match :: matcher where
  "ip_match prev t =
     (if word_before prev then None
      else case octet_dot t of
        None \<Rightarrow> None
      | Some n1 \<Rightarrow>
          (case octet_dot (drop n1 t) of
             None \<Rightarrow> None
           | Some n2 \<Rightarrow>
               (case octet_dot (drop (n1 + n2) t) of
                  None \<Rightarrow> None
                | Some n3 \<Rightarrow>
                    (let rest = drop (n1 + n2 + n3) t; n4 = digit_run rest
                     in if 1 \<le> n4 \<and> n4 \<le> 3 \<and> boundary_after (drop n4 rest)
                        then Some (n1 + n2 + n3 + n4) else None))))"

text \<open>\<open>0x[0-9a-f]+\<close>\<close>

definition is_hex_digit :: "char \<Rightarrow> bool" where
  "is_hex_digit c = (c \<in> set ''0123456789abcdef'')"

definition hex_match :: matcher where
  "hex_match prev t =
     (case t of
        a # b # rest \<Rightarrow>
          (let n = length (takeWhile is_hex_digit rest)
           in if a = CHR ''0'' \<and> b = CHR ''x'' \<and> 1 \<le> n then Some (2 + n) else None)
      | _ \<Rightarrow> None)"

text \<open>
  \<open>(?:/[^/ ]*)+/?\<close>: from a slash, every group takes a slash and the characters up
  to the next slash or space, so the match runs to the next space or to the end.
\<close>

definition path_match :: matcher where
  "path_match prev t =
     (case t of
        [] \<Rightarrow> None
      | c # rest \<Rightarrow>
          if c = CHR ''/'' then Some (1 + length (takeWhile (\<lambda>x. x \<noteq> CHR '' '') rest))
          else None)"

text \<open>\<open>\b\d+\b\<close>: a whole run of digits with no word character on either side.\<close>

definition number_match :: matcher where
  "number_match prev t =
     (let n = digit_run t
      in if \<not> word_before prev \<and> 1 \<le> n \<and> boundary_after (drop n t) then Some n else None)"

text \<open>\<open>[^\w\s]\<close>\<close>

definition punctuation_match :: matcher where
  "punctuation_match prev t =
     (case t of [] \<Rightarrow> None
      | c # _ \<Rightarrow> if \<not> is_word c \<and> \<not> is_space c then Some 1 else None)"

text \<open>\<open>\s+\<close>\<close>

definition whitespace_match :: matcher where
  "whitespace_match prev t =
     (let n = length (takeWhile is_space t) in if 1 \<le> n then Some n else None)"

text \<open>\<open>str.strip()\<close>\<close>

definition strip :: "string \<Rightarrow> string" where
  "strip t = rev (dropWhile is_space (rev (dropWhile is_space t)))"

subsection \<open>\<open>generalize_message\<close>\<close>

text \<open>
  A frame cell holding text: a Python \<open>str\<close>, or any other object (pandas stores
  \<open>NaN\<close> for an empty cell).
\<close>

datatype cell = Str string | NonStr

text \<open>
  The body of \<open>generalize_message\<close> for a \<open>str\<close> argument of ASCII characters,
  step by step. On a string with a character outside ASCII this function is not the
  source's: Python keeps a non-ASCII letter as a word character, and this function
  replaces it by a space.
\<close>

definition generalize_text :: "string \<Rightarrow> string" where
  "generalize_text text0 =
     (let text1 = map lower_char text0;
          text2 = re_sub ip_match ''ip address'' None text1;
          text3 = re_sub hex_match ''hex value'' None text2;
          text4 = re_sub path_match ''file path'' None text3;
          text5 = re_sub number_match ''number'' None text4;
          text6 = re_sub punctuation_match '' '' None text5;
          text7 = strip (re_sub whitespace_match '' '' None text6)
      in text7)"

fun generalize_message :: "cell \<Rightarrow> string" where
  "generalize_message NonStr = []"
| "generalize_message (Str text0) = generalize_text text0"

section \<open>report\_generator.py\<close>

text \<open>The row mask \<open>(Level == 'ERROR') & (final_problem_id != 0)\<close>.\<close>

definition is_classified_error :: "log_record \<Rightarrow> bool" where
  "is_classified_error r = (Level r = ''ERROR'' \<and> final_problem_id r \<noteq> 0)"

subsection \<open>\<open>calculate_impact_metrics\<close>\<close>

text \<open>
  A row of the returned frame; \<open>metric_problem_id\<close> is its index
  (the \<open>final_problem_id\<close> group key).
\<close>

record impact_row =
  metric_problem_id :: int
  anomaly_count :: int
  unique_systems_affected :: int
  Impact_Score :: int

text \<open>
  \<open>groupby('final_problem_id').agg(anomaly_count=('final_anomaly_id', 'count'),
  unique_systems_affected=('file_name', 'nunique'))\<close>: one row per group key, keys in
  ascending order, followed by the \<open>Impact_Score\<close> column assignment.
\<close>

definition impact_of_group :: "log_record list \<Rightarrow> int \<Rightarrow> impact_row" where
  "impact_of_group rows pid =
     (let members = filter (\<lambda>r. final_problem_id r = pid) rows;
          n = int (length (map final_anomaly_id members));
          u = int (length (unique (map file_name members)))
      in \<lparr>metric_problem_id = pid, anomaly_count = n,
          unique_systems_affected = u, Impact_Score = n * u\<rparr>)"

definition groupby_agg :: "log_record list \<Rightarrow> impact_row list" where
  "groupby_agg rows =
     map (impact_of_group rows) (sort (unique (map final_problem_id rows)))"

definition calculate_impact_metrics :: "log_record list \<Rightarrow> impact_row list" where
  "calculate_impact_metrics classified_logs =
     (let selected = filter is_reportable_warning classified_logs
      in if selected = [] then []
         else sort_values_descending Impact_Score
                (groupby_agg (drop_duplicates anomaly_problem_pair selected)))"

subsection \<open>Knowledge-base tables\<close>

text \<open>Rows of \<open>anomalies_kb\<close> and \<open>problems_kb\<close> as \<open>load_knowledge_base\<close> builds them.\<close>

record anomaly_entry =
  anomaly_id :: int
  problem_id :: int
  Generalized_Anomaly :: string
  Anomaly_Text :: cell

record problem_entry =
  kb_problem_id :: int
  Generalized_Problem :: string
  Problem_Text :: cell

text \<open>
  The scenario id: \<open>re.search(r'\d+', case_name).group()\<close> when the name has a
  digit, the whole name otherwise.
\<close>


definition scenario_id_of :: "string \<Rightarrow> string" where
  "scenario_id_of case_name =
     (let digits = takeWhile is_digit (dropWhile (\<lambda>c. \<not> is_digit c) case_name)
      in if digits = [] then case_name else digits)"

subsection \<open>\<open>generate_predictive_alerts\<close>\<close>

text \<open>
  The description column: the first \<open>Problem_Text\<close> of \<open>problems_kb\<close> for the
  problem id, or the fallback message, which embeds the id.
\<close>

datatype description = Described cell | Description_missing int

definition problem_text_of :: "problem_entry list \<Rightarrow> int \<Rightarrow> description" where
  "problem_text_of problems_kb pid =
     (case filter (\<lambda>p. kb_problem_id p = pid) problems_kb of
        [] \<Rightarrow> Description_missing pid
      | p # _ \<Rightarrow> Described (Problem_Text p))"

text \<open>
  One prediction. The two remaining columns of the source row are the constant alert
  type and a rationale text that embeds only the trigger problem id; they are functions
  of \<open>trigger_problem_id\<close> and are not repeated here.
\<close>

record predictive_alert =
  alert_scenario_id :: string
  trigger_problem_id :: int
  problem_description :: description
  trigger_time :: int
  trigger_log :: string
  predicted_anomaly_id :: int
  predicted_warning_text :: cell

text \<open>\<open>frame.iloc[0]\<close>: the first row, \<open>IndexError\<close> on an empty frame.\<close>

definition iloc_first :: "'a list \<Rightarrow> py_error + 'a" where
  "iloc_first rows = (case rows of [] \<Rightarrow> Inl IndexError | r # _ \<Rightarrow> Inr r)"

text \<open>The body of the loop over \<open>unique_problem_ids\<close>, for one problem id.\<close>

definition predictions_for_problem ::
  "log_record list \<Rightarrow> anomaly_entry list \<Rightarrow> problem_entry list \<Rightarrow> string \<Rightarrow> int
     \<Rightarrow> py_error + predictive_alert list" where
  "predictions_for_problem classified_logs anomalies_kb problems_kb scenario_id pid =
     (let detected_errors = filter is_classified_error classified_logs;
          potential_warnings_kb = filter (\<lambda>a. problem_id a = pid) anomalies_kb;
          occurred_warnings =
            drop_duplicates anomaly_problem_pair
              (filter (\<lambda>r. Level r = ''WARNING'' \<and> final_problem_id r = pid) classified_logs);
          already_occurred_anomalies = unique (map final_anomaly_id occurred_warnings)
      in case iloc_first (sort_values Timestamp
                (filter (\<lambda>r. final_problem_id r = pid) detected_errors)) of
           Inl e \<Rightarrow> Inl e
         | Inr trigger_error_log \<Rightarrow>
             Inr (map (\<lambda>anomaly_row.
                        \<lparr>alert_scenario_id = scenario_id,
                         trigger_problem_id = pid,
                         problem_description = problem_text_of problems_kb pid,
                         trigger_time = Timestamp trigger_error_log,
                         trigger_log = log trigger_error_log,
                         predicted_anomaly_id = anomaly_id anomaly_row,
                         predicted_warning_text = Anomaly_Text anomaly_row\<rparr>)
                   (filter (\<lambda>anomaly_row.
                              anomaly_id anomaly_row \<notin> set already_occurred_anomalies)
                      potential_warnings_kb)))"

text \<open>The loop: predictions accumulate in problem-id order; an exception ends the run.\<close>

fun predictions_loop ::
  "log_record list \<Rightarrow> anomaly_entry list \<Rightarrow> problem_entry list \<Rightarrow> string \<Rightarrow> int list
     \<Rightarrow> py_error + predictive_alert list" where
  "predictions_loop classified_logs anomalies_kb problems_kb scenario_id [] = Inr []"
| "predictions_loop classified_logs anomalies_kb problems_kb scenario_id (pid # pids) =
     (case predictions_for_problem classified_logs anomalies_kb problems_kb scenario_id pid of
        Inl e \<Rightarrow> Inl e
      | Inr predictions \<Rightarrow>
          (case predictions_loop classified_logs anomalies_kb problems_kb scenario_id pids of
             Inl e \<Rightarrow> Inl e
           | Inr later \<Rightarrow> Inr (predictions @ later)))"

definition generate_predictive_alerts ::
  "log_record list \<Rightarrow> anomaly_entry list \<Rightarrow> problem_entry list \<Rightarrow> string
     \<Rightarrow> py_error + predictive_alert list" where
  "generate_predictive_alerts classified_logs anomalies_kb problems_kb case_name =
     (let detected_errors = filter is_classified_error classified_logs
      in if detected_errors = [] then Inr []
         else predictions_loop classified_logs anomalies_kb problems_kb
                (scenario_id_of case_name)
                (unique (map final_problem_id detected_errors)))"

subsection \<open>\<open>identify_novel_anomalies\<close>\<close>

text \<open>
  One output row; \<open>novel_anomaly_id\<close> is the constant 0 of the source
  (``new, not in the knowledge base'').
\<close>

record novel_alert =
  novel_scenario_id :: string
  novel_anomaly_id :: int
  novel_problem_id :: int
  novel_file :: string
  novel_line :: int
  novel_log :: string

text \<open>
  The mask \<open>(Timestamp >= time_start) & (Timestamp <= time_end)\<close> of the look-back
  window of a WARNING, and the rows of \<open>known_errors\<close> it selects;
  \<open>timedelta(minutes=m)\<close> is \<open>60 * m\<close> seconds.
\<close>

definition in_window :: "int \<Rightarrow> log_record \<Rightarrow> log_record \<Rightarrow> bool" where
  "in_window window_minutes warning e =
     (let time_start = Timestamp warning - 60 * window_minutes;
          time_end = Timestamp warning
      in time_start \<le> Timestamp e \<and> Timestamp e \<le> time_end)"

definition potential_causes :: "int \<Rightarrow> log_record list \<Rightarrow> log_record \<Rightarrow> log_record list" where
  "potential_causes window_minutes known_errors warning =
     filter (in_window window_minutes warning) known_errors"

text \<open>The loop over \<open>novel_warnings\<close>; \<open>iloc[-1]\<close> is guarded by the emptiness test.\<close>

fun novel_alerts_loop ::
  "int \<Rightarrow> string \<Rightarrow> log_record list \<Rightarrow> log_record list \<Rightarrow> novel_alert list" where
  "novel_alerts_loop window_minutes scenario_id known_errors [] = []"
| "novel_alerts_loop window_minutes scenario_id known_errors (warning # rest) =
     (let causes = potential_causes window_minutes known_errors warning
      in if causes \<noteq> [] then
           (let closest_error = last causes
            in \<lparr>novel_scenario_id = scenario_id,
                novel_anomaly_id = 0,
                novel_problem_id = final_problem_id closest_error,
                novel_file = file_name warning,
                novel_line = line_number warning,
                novel_log = log warning\<rparr>
               # novel_alerts_loop window_minutes scenario_id known_errors rest)
         else novel_alerts_loop window_minutes scenario_id known_errors rest)"

definition is_novel_warning :: "log_record \<Rightarrow> bool" where
  "is_novel_warning r = (Level r = ''WARNING'' \<and> final_problem_id r = 0)"

definition novel_warnings :: "log_record list \<Rightarrow> log_record list" where
  "novel_warnings classified_logs =
     drop_duplicates (\<lambda>r. (Generalized_Message r, file_name r))
       (filter is_novel_warning classified_logs)"

text \<open>
  \<open>NOVEL_ANOMALY_WINDOW_MINUTES\<close> comes from the configuration module and is a
  parameter here.
\<close>

definition identify_novel_anomalies ::
  "int \<Rightarrow> log_record list \<Rightarrow> string \<Rightarrow> novel_alert list" where
  "identify_novel_anomalies NOVEL_ANOMALY_WINDOW_MINUTES classified_logs case_name =
     (if filter is_novel_warning classified_logs = [] then []
      else let known_errors = sort_values Timestamp (filter is_classified_error classified_logs)
           in if known_errors = [] then []
              else novel_alerts_loop NOVEL_ANOMALY_WINDOW_MINUTES (scenario_id_of case_name)
                     known_errors (novel_warnings classified_logs))"

subsection \<open>\<open>load_knowledge_base\<close>\<close>

text \<open>
  \<open>os.path.splitext(path)[1]\<close> (POSIX): the part of the last path component from its
  last dot on, provided some character other than a dot stands before that dot in the
  component; the empty string otherwise.
\<close>

definition splitext_extension :: "string \<Rightarrow> string" where
  "splitext_extension path =
     (let name = rev (takeWhile (\<lambda>c. c \<noteq> CHR ''/'') (rev path));
          ext = rev (takeWhile (\<lambda>c. c \<noteq> CHR ''.'') (rev name));
          stem = take (length name - length ext - 1) name
      in if CHR ''.'' \<in> set name \<and> list_ex (\<lambda>c. c \<noteq> CHR ''.'') stem
         then CHR ''.'' # ext else [])"

text \<open>
  A row of the frame \<open>kb_df\<close> as read with
  \<open>names=['anomaly_id', 'Anomaly_Text', 'problem_id', 'Problem_Text']\<close>:
  the four columns by position.
\<close>

type_synonym kb_row = "int \<times> cell \<times> int \<times> cell"

text \<open>
  The two tables built from \<open>kb_df\<close>: \<open>anomalies_kb\<close> keeps every row,
  \<open>problems_kb\<close> is de-duplicated on whole rows.
\<close>

definition anomalies_kb_of :: "kb_row list \<Rightarrow> anomaly_entry list" where
  "anomalies_kb_of kb_df =
     map (\<lambda>(aid, atext, pid, ptext).
            \<lparr>anomaly_id = aid, problem_id = pid,
             Generalized_Anomaly = generalize_message atext, Anomaly_Text = atext\<rparr>) kb_df"

definition problems_kb_of :: "kb_row list \<Rightarrow> problem_entry list" where
  "problems_kb_of kb_df =
     drop_duplicates (\<lambda>row. row)
       (map (\<lambda>(aid, atext, pid, ptext).
               \<lparr>kb_problem_id = pid,
                Generalized_Problem = generalize_message ptext, Problem_Text = ptext\<rparr>) kb_df)"

text \<open>
  The file system and pandas are the environment: \<open>path_exists\<close> is
  \<open>os.path.exists\<close>; \<open>read_csv\<close> and \<open>read_excel\<close> (called with the engine name)
  return the frame, or the text of whatever exception the reader raises.
\<close>

record environment =
  path_exists :: "string \<Rightarrow> bool"
  read_csv :: "string \<Rightarrow> string + kb_row list"
  read_excel :: "string \<Rightarrow> string option \<Rightarrow> string + kb_row list"

definition tables_of_frame ::
  "string + kb_row list \<Rightarrow> py_error + anomaly_entry list \<times> problem_entry list" where
  "tables_of_frame read =
     (case read of
        Inl raised \<Rightarrow> Inl (ReaderError raised)
      | Inr kb_df \<Rightarrow> Inr (anomalies_kb_of kb_df, problems_kb_of kb_df))"

definition load_knowledge_base ::
  "environment \<Rightarrow> string \<Rightarrow> py_error + anomaly_entry list \<times> problem_entry list" where
  "load_knowledge_base env kb_path =
     (if \<not> path_exists env kb_path then Inl (FileNotFoundError kb_path)
      else let file_extension = map lower_char (splitext_extension kb_path)
           in if file_extension = ''.csv'' then tables_of_frame (read_csv env kb_path)
              else if file_extension \<in> set [''.xlsx'', ''.xls''] then
                tables_of_frame
                  (read_excel env kb_path
                     (if file_extension = ''.xlsx'' then Some ''openpyxl'' else None))
              else Inl (ValueError_unsupported_format file_extension))"

section \<open>log\_parser.py\<close>

subsection \<open>\<open>parse_log_line\<close>\<close>

text \<open>\<open>\d{4}-\d{2}-\d{2}T\d{2}:\d{2}:\d{2}\<close>: nineteen characters of that shape.\<close>

definition timestamp_shape :: "string \<Rightarrow> bool" where
  "timestamp_shape ts =
     (length ts = 19
      \<and> list_all (\<lambda>(i, c).
            if i \<in> set [4, 7] then c = CHR ''-''
            else if i = 10 then c = CHR ''T''
            else if i \<in> set [13, 16] then c = CHR '':''
            else is_digit c) (zip [0 ..< 19] ts))"

text \<open>
  \<open>re.match\<close> of
  \<open>(\d{4}-\d{2}-\d{2}T\d{2}:\d{2}:\d{2})\s+(\w+)\s+([^:]+):\s+(.*)\<close> at the start of
  the line. The level is a whole run of word characters between two runs of white
  space. The category runs from the end of the white space to the first colon; when
  the colon follows the white space at once, the engine gives the last white-space
  character back and it becomes the category. White space must follow the colon, and
  the message is the rest up to a line feed. Without a match the line itself is the
  message.
\<close>

definition parse_log_line :: "string \<Rightarrow> string option \<times> string \<times> string \<times> string" where
  "parse_log_line line =
     (let unknown = (None, ''UNKNOWN'', ''UNKNOWN'', line);
          timestamp = take 19 line;
          after_timestamp = drop 19 line;
          level_on = dropWhile is_space after_timestamp;
          level = takeWhile is_word level_on;
          after_level = dropWhile is_word level_on;
          spaces = takeWhile is_space after_level;
          category_on = dropWhile is_space after_level
      in if timestamp_shape timestamp \<and> takeWhile is_space after_timestamp \<noteq> []
            \<and> level \<noteq> [] \<and> spaces \<noteq> [] then
           (let found =
                  (case category_on of
                     [] \<Rightarrow> None
                   | c # after_colon \<Rightarrow>
                       if c = CHR '':'' then
                         (if 2 \<le> length spaces then Some ([last spaces], after_colon) else None)
                       else
                         (case dropWhile (\<lambda>x. x \<noteq> CHR '':'') category_on of
                            [] \<Rightarrow> None
                          | _ # after_colon' \<Rightarrow>
                              Some (takeWhile (\<lambda>x. x \<noteq> CHR '':'') category_on, after_colon')))
            in case found of
                 None \<Rightarrow> unknown
               | Some (category, after_colon) \<Rightarrow>
                   if takeWhile is_space after_colon = [] then unknown
                   else (Some timestamp, level, category,
                         takeWhile (\<lambda>x. x \<noteq> CHR 0x0A) (dropWhile is_space after_colon)))
         else unknown)"

subsection \<open>\<open>process_all_logs_for_case\<close>\<close>

text \<open>\<open>sub in text\<close> for strings.\<close>

fun contains :: "string \<Rightarrow> string \<Rightarrow> bool" where
  "contains sub [] = (sub = [])"
| "contains sub (c # cs) = (take (length sub) (c # cs) = sub \<or> contains sub cs)"

text \<open>An entry of \<open>all_logs\<close>: the dictionary appended for a retained line.\<close>

record log_entry =
  entry_Timestamp :: "string option"
  entry_Level :: string
  entry_Message :: string
  entry_file_name :: string
  entry_line_number :: int
  entry_log :: string

text \<open>
  The loop over the lines of one file, \<open>i\<close> counting from the \<open>enumerate\<close> index of
  the first line given.
\<close>

fun file_entries :: "string \<Rightarrow> int \<Rightarrow> string list \<Rightarrow> log_entry list" where
  "file_entries filename i [] = []"
| "file_entries filename i (raw # rest) =
     (let line = strip raw
      in if line = [] \<or> contains '' INFO '' line then file_entries filename (i + 1) rest
         else case parse_log_line line of
           (timestamp, level, category, message) \<Rightarrow>
             if level \<in> set [''WARNING'', ''ERROR''] then
               \<lparr>entry_Timestamp = timestamp, entry_Level = level, entry_Message = message,
                entry_file_name = filename, entry_line_number = i + 1, entry_log = line\<rparr>
               # file_entries filename (i + 1) rest
             else file_entries filename (i + 1) rest)"

text \<open>
  The directory is the list of its \<open>*.txt\<close> files in \<open>glob\<close> order, each with its base
  name and the lines that could be read from it (a read error ends the file's loop and
  keeps the entries appended so far).
\<close>

definition all_logs :: "(string \<times> string list) list \<Rightarrow> log_entry list" where
  "all_logs log_files = concat (map (\<lambda>(filename, lines). file_entries filename 0 lines) log_files)"

text \<open>
  \<open>pd.to_datetime(..., errors='coerce')\<close> is a parameter: it gives the instant of a
  timestamp text, or \<open>None\<close> (\<open>NaT\<close>) when pandas cannot read it as a date. Rows with
  \<open>NaT\<close> are dropped, the rest is sorted by \<open>Timestamp\<close>, and the generalized message
  is added. The generalized message is computed from the row's own \<open>Message\<close>, so the
  model fills the column while it builds the row.
\<close>

definition with_datetime :: "(string \<Rightarrow> int option) \<Rightarrow> log_entry \<Rightarrow> parsed_log option" where
  "with_datetime to_datetime entry =
     (case entry_Timestamp entry of
        None \<Rightarrow> None
      | Some text0 \<Rightarrow>
          (case to_datetime text0 of
             None \<Rightarrow> None
           | Some t \<Rightarrow>
               Some \<lparr>Timestamp = t, Level = entry_Level entry, Message = entry_Message entry,
                     file_name = entry_file_name entry,
                     line_number = entry_line_number entry, log = entry_log entry,
                     Generalized_Message = generalize_message (Str (entry_Message entry))\<rparr>))"

definition process_all_logs_for_case ::
  "(string \<Rightarrow> int option) \<Rightarrow> (string \<times> string list) list \<Rightarrow> parsed_log list" where
  "process_all_logs_for_case to_datetime log_files =
     (let entries = all_logs log_files
      in if entries = [] then []
         else sort_values Timestamp (List.map_filter (with_datetime to_datetime) entries))"

section \<open>orchestrator.py: the primary report\<close>

text \<open>
  A row of the primary report (\<open>submit_report\<close>): scenario id, anomaly id, problem id,
  the file, line number and raw log of the root-cause ERROR, and the raw log of the
  WARNING.
\<close>

record report_row =
  report_scenario_id :: string
  report_anomaly_id :: int
  report_problem_id :: int
  error_file_name :: string
  error_line_number :: int
  error_log :: string
  anomaly_log :: string

text \<open>
  \<open>error_details\<close>: the classified ERRORs sorted by time, the first one kept for
  every problem id; \<open>error_map\<close> is the dictionary from problem id to that row.
\<close>

definition error_details :: "log_record list \<Rightarrow> log_record list" where
  "error_details classified_logs =
     drop_duplicates final_problem_id
       (sort_values Timestamp (filter is_classified_error classified_logs))"

definition error_map :: "log_record list \<Rightarrow> int \<Rightarrow> log_record option" where
  "error_map classified_logs pid =
     find (\<lambda>e. final_problem_id e = pid) (error_details classified_logs)"

text \<open>
  The rows of the report in the order of the de-duplicated WARNINGs, that is, before
  the final ordering by the timestamp read back from the WARNING's raw log. A WARNING
  whose problem id is not in \<open>error_map\<close> gets no \<open>error_log\<close> and is dropped
  (\<open>dropna\<close>).
\<close>

definition primary_report_rows :: "log_record list \<Rightarrow> string \<Rightarrow> report_row list" where
  "primary_report_rows classified_logs case_name =
     List.map_filter
       (\<lambda>w. case error_map classified_logs (final_problem_id w) of
              None \<Rightarrow> None
            | Some e \<Rightarrow>
                Some \<lparr>report_scenario_id = scenario_id_of case_name,
                      report_anomaly_id = final_anomaly_id w,
                      report_problem_id = final_problem_id w,
                      error_file_name = file_name e,
                      error_line_number = line_number e,
                      error_log = log e,
                      anomaly_log = log w\<rparr>)
       (reportable_warnings classified_logs)"

section \<open>Example tables\<close>

text \<open>
  A small classified table used to instantiate the theorems: one problem (id 10) with
  an ERROR at \<open>t = 0\<close> and a repeated ERROR at \<open>t = 5\<close>, anomaly 1 reported twice
  (\<open>t = 1\<close> and \<open>t = 2\<close>) and anomaly 2 once (\<open>t = 3\<close>).
\<close>

definition example_warning :: "int \<Rightarrow> int \<Rightarrow> int \<Rightarrow> string \<Rightarrow> log_record" where
  "example_warning t a p f =
     \<lparr>Timestamp = t, Level = ''WARNING'', Message = ''disk latency high'',
      file_name = f, line_number = t + 1, log = ''w'',
      Generalized_Message = ''disk latency high'',
      final_anomaly_id = a, final_problem_id = p\<rparr>"

definition example_error :: "int \<Rightarrow> int \<Rightarrow> string \<Rightarrow> log_record" where
  "example_error t p f =
     \<lparr>Timestamp = t, Level = ''ERROR'', Message = ''disk failure'',
      file_name = f, line_number = t + 1, log = ''e'',
      Generalized_Message = ''disk failure'',
      final_anomaly_id = 0, final_problem_id = p\<rparr>"

definition example_logs :: "log_record list" where
  "example_logs =
     [example_error 0 10 ''a.txt'', example_warning 1 1 10 ''a.txt'',
      example_warning 2 1 10 ''b.txt'', example_warning 3 2 10 ''b.txt'',
      example_error 5 10 ''b.txt'']"

text \<open>Two problems with one reported anomaly each, in one file each.\<close>

definition tied_logs :: "log_record list" where
  "tied_logs = [example_warning 1 1 10 ''a.txt'', example_warning 2 2 20 ''b.txt'']"

text \<open>
  Two classified ERRORs (problem 10 at \<open>t = 0\<close>, problem 20 at \<open>t = 100\<close>) and two
  unmatched WARNINGs, at \<open>t = 130\<close> and at \<open>t = 1000\<close>.
\<close>

definition novel_logs :: "log_record list" where
  "novel_logs =
     [example_error 0 10 ''a.txt'', example_error 100 20 ''a.txt'',
      example_warning 130 0 0 ''a.txt'', example_warning 1000 0 0 ''b.txt'']"

text \<open>
  An environment with two files: a CSV catalog of one row and a file of another type.
\<close>

definition example_kb_df :: "kb_row list" where
  "example_kb_df =
     [(1, Str ''Disk latency above 200 ms'', 10, Str ''Disk failure on /dev/sda''),
      (1, Str ''Disk latency above 200 ms'', 10, Str ''Disk failure on /dev/sda''),
      (2, Str ''Queue depth 64 exceeded'', 10, Str ''Disk failure on /dev/sda'')]"

definition example_environment :: environment where
  "example_environment =
     \<lparr>path_exists = (\<lambda>p. p \<in> set [''/case/anomalies_problems.CSV'', ''/case/notes.txt'']),
      read_csv = (\<lambda>p. Inr example_kb_df),
      read_excel = (\<lambda>p engine. Inl ''not a workbook'')\<rparr>"

text \<open>
  A table with a classified ERROR of problem 10 (twice) and the WARNING of anomaly 2,
  for the catalog \<open>example_kb_df\<close>, which lists anomaly 1 of problem 10 twice.
\<close>

definition predictive_logs :: "log_record list" where
  "predictive_logs =
     [example_error 7 10 ''b.txt'', example_warning 8 2 10 ''a.txt'',
      example_error 3 10 ''a.txt'']"

text \<open>
  Anomaly 1 of problem 10 reported twice, with raw logs \<open>first\<close> (\<open>t = 1\<close>) and
  \<open>second\<close> (\<open>t = 2\<close>): once after an ERROR of problem 10, and once in a table with no
  ERROR at all.
\<close>

definition repeated_warnings :: "log_record list" where
  "repeated_warnings =
     [(example_warning 1 1 10 ''a.txt'')\<lparr>log := ''first''\<rparr>,
      (example_warning 2 1 10 ''b.txt'')\<lparr>log := ''second''\<rparr>]"

definition repeated_logs :: "log_record list" where
  "repeated_logs = example_error 0 10 ''a.txt'' # repeated_warnings"

section \<open>Auxiliary notions\<close>

text \<open>
  A text is single-spaced when its only white-space character is the space and no two
  white-space characters are adjacent.
\<close>

fun single_spaced :: "string \<Rightarrow> bool" where
  "single_spaced [] = True"
| "single_spaced (a # cs) =
     ((if is_space a then a = CHR '' '' \<and> (case cs of [] \<Rightarrow> True | b # _ \<Rightarrow> \<not> is_space b)
       else True) \<and> single_spaced cs)"

section \<open>Verification\<close>

subsection \<open>Facts about \<open>drop_duplicates\<close>\<close>

lemma drop_duplicates_seen_subset:
  "set (drop_duplicates_seen k seen rs) \<subseteq> set rs"
  by (induction rs arbitrary: seen) auto

lemma drop_duplicates_seen_keys:
  "k ` set (drop_duplicates_seen k seen rs) = k ` set rs - set seen"
  by (induction rs arbitrary: seen) auto

lemma drop_duplicates_seen_distinct:
  "distinct (map k (drop_duplicates_seen k seen rs))"
proof (induction rs arbitrary: seen)
  case Nil
  show ?case by simp
next
  case (Cons r rs)
  have "k r \<notin> k ` set (drop_duplicates_seen k (k r # seen) rs)"
    by (simp add: drop_duplicates_seen_keys)
  with Cons show ?case by simp
qed

lemma drop_duplicates_seen_filter:
  "filter (\<lambda>r. k r = v) (drop_duplicates_seen k seen rs) =
     (if v \<in> set seen then []
      else case find (\<lambda>r. k r = v) rs of None \<Rightarrow> [] | Some r \<Rightarrow> [r])"
proof (induction rs arbitrary: seen)
  case Nil
  show ?case by simp
next
  case (Cons r rs)
  show ?case
  proof (cases "k r \<in> set seen")
    case True
    then show ?thesis using Cons[of seen] by auto
  next
    case False
    then show ?thesis using Cons[of "k r # seen"] by auto
  qed
qed

lemma drop_duplicates_filter:
  "filter (\<lambda>r. k r = v) (drop_duplicates k rs) =
     (case find (\<lambda>r. k r = v) rs of None \<Rightarrow> [] | Some r \<Rightarrow> [r])"
  by (simp add: drop_duplicates_def drop_duplicates_seen_filter)

lemma drop_duplicates_distinct: "distinct (map k (drop_duplicates k rs))"
  by (simp add: drop_duplicates_def drop_duplicates_seen_distinct)

lemma drop_duplicates_keys: "k ` set (drop_duplicates k rs) = k ` set rs"
  by (simp add: drop_duplicates_def drop_duplicates_seen_keys)

lemma drop_duplicates_subset: "set (drop_duplicates k rs) \<subseteq> set rs"
  by (simp add: drop_duplicates_def drop_duplicates_seen_subset)

lemma find_filter_conj:
  "find P (filter Q xs) = find (\<lambda>x. Q x \<and> P x) xs"
  by (induction xs) auto

lemma sorted_find_least:
  assumes "sorted (map f xs)" and "find P xs = Some r" and "x \<in> set xs" and "P x"
  shows "f r \<le> f x"
  using assms
proof (induction xs)
  case Nil
  then show ?case by simp
next
  case (Cons y ys)
  then show ?case by (cases "P y") auto
qed

lemma reportable_warnings_eq:
  "reportable_warnings logs =
     drop_duplicates anomaly_problem_pair (filter is_reportable_warning logs)"
  by (simp add: reportable_warnings_def Let_def drop_duplicates_def)

subsection \<open>De-duplication of reportable WARNINGs\<close>

text \<open>
  The intermediate frame \<open>reportable_warnings\<close>. On a table whose rows are in
  ascending \<open>Timestamp\<close> order, the de-duplication step of the primary report keeps,
  for every
  \<open>(final_anomaly_id, final_problem_id)\<close> pair carried by some WARNING with a non-zero
  problem id, exactly one row: the first such row of the table, whose timestamp is at
  most that of every other occurrence of the pair. It keeps nothing else.
\<close>

theorem reportable_warnings_keep_earliest:
  assumes "sorted (map Timestamp classified_logs)"
  shows "distinct (map anomaly_problem_pair (reportable_warnings classified_logs))
       \<and> set (reportable_warnings classified_logs)
            \<subseteq> {r \<in> set classified_logs. is_reportable_warning r}
       \<and> (\<forall>w \<in> set classified_logs. is_reportable_warning w \<longrightarrow>
            (\<exists>r. filter (\<lambda>x. anomaly_problem_pair x = anomaly_problem_pair w)
                     (reportable_warnings classified_logs) = [r]
                 \<and> find (\<lambda>x. is_reportable_warning x
                              \<and> anomaly_problem_pair x = anomaly_problem_pair w)
                      classified_logs = Some r
                 \<and> Timestamp r \<le> Timestamp w))"
proof (intro conjI ballI impI)
  show "distinct (map anomaly_problem_pair (reportable_warnings classified_logs))"
    by (simp add: reportable_warnings_eq drop_duplicates_distinct)
  show "set (reportable_warnings classified_logs)
          \<subseteq> {r \<in> set classified_logs. is_reportable_warning r}"
    using drop_duplicates_subset[of anomaly_problem_pair
            "filter is_reportable_warning classified_logs"]
    by (auto simp: reportable_warnings_eq)
next
  fix w
  assume w: "w \<in> set classified_logs" "is_reportable_warning w"
  let ?P = "\<lambda>x. is_reportable_warning x \<and> anomaly_problem_pair x = anomaly_problem_pair w"
  from w have "\<exists>x \<in> set classified_logs. ?P x" by blast
  then obtain r where r: "find ?P classified_logs = Some r"
    by (cases "find ?P classified_logs") (auto simp: find_None_iff)
  have "filter (\<lambda>x. anomaly_problem_pair x = anomaly_problem_pair w)
          (reportable_warnings classified_logs) = [r]"
    by (simp add: reportable_warnings_eq drop_duplicates_filter find_filter_conj r)
  moreover have "Timestamp r \<le> Timestamp w"
    using sorted_find_least[OF assms r w(1)] w(2) by simp
  ultimately show "\<exists>r. filter (\<lambda>x. anomaly_problem_pair x = anomaly_problem_pair w)
                     (reportable_warnings classified_logs) = [r]
                 \<and> find ?P classified_logs = Some r
                 \<and> Timestamp r \<le> Timestamp w"
    using r by blast
qed

text \<open>The instance: the pair (1, 10) occurs at \<open>t = 1\<close> and \<open>t = 2\<close>; the row of \<open>t = 1\<close> is kept.\<close>

lemmas example_simps = example_logs_def example_warning_def example_error_def
  is_reportable_warning_def anomaly_problem_pair_def

theorem reportable_warnings_keep_earliest_witness:
  "sorted (map Timestamp example_logs)
   \<and> example_warning 2 1 10 ''b.txt'' \<in> set example_logs
   \<and> is_reportable_warning (example_warning 2 1 10 ''b.txt'')
   \<and> filter (\<lambda>x. anomaly_problem_pair x = (1, 10)) (reportable_warnings example_logs)
       = [example_warning 1 1 10 ''a.txt'']
   \<and> reportable_warnings example_logs
       = [example_warning 1 1 10 ''a.txt'', example_warning 3 2 10 ''b.txt'']"
proof -
  have s: "sorted (map Timestamp example_logs)"
    by (simp add: example_simps)
  have m: "example_warning 2 1 10 ''b.txt'' \<in> set example_logs"
    by (simp add: example_logs_def)
  have p: "is_reportable_warning (example_warning 2 1 10 ''b.txt'')"
    by (simp add: example_simps)
  from reportable_warnings_keep_earliest[OF s] m p
  obtain r where r:
    "filter (\<lambda>x. anomaly_problem_pair x
               = anomaly_problem_pair (example_warning 2 1 10 ''b.txt''))
       (reportable_warnings example_logs) = [r]"
    "find (\<lambda>x. is_reportable_warning x
             \<and> anomaly_problem_pair x
                 = anomaly_problem_pair (example_warning 2 1 10 ''b.txt''))
       example_logs = Some r"
    by blast
  from r(2) have "r = example_warning 1 1 10 ''a.txt''"
    by (simp add: example_simps)
  with r(1) have f: "filter (\<lambda>x. anomaly_problem_pair x = (1, 10))
      (reportable_warnings example_logs) = [example_warning 1 1 10 ''a.txt'']"
    by (simp add: example_simps)
  have "reportable_warnings example_logs
       = [example_warning 1 1 10 ''a.txt'', example_warning 3 2 10 ''b.txt'']"
    by (simp add: reportable_warnings_def drop_duplicates_def example_simps)
  with s m p f show ?thesis by blast
qed

subsection \<open>Impact metrics\<close>

lemma unique_set: "set (unique xs) = set xs"
  using drop_duplicates_keys[of "\<lambda>x. x" xs] by (simp add: unique_def)

lemma unique_distinct: "distinct (unique xs)"
  using drop_duplicates_distinct[of "\<lambda>x. x" xs] by (simp add: unique_def)

lemma unique_length: "length (unique xs) = card (set xs)"
  using distinct_card[OF unique_distinct, of xs] by (simp add: unique_set)

lemma groupby_agg_index:
  "map metric_problem_id (groupby_agg rows) = sort (unique (map final_problem_id rows))"
  by (simp add: groupby_agg_def impact_of_group_def Let_def comp_def)

lemma groupby_agg_row:
  assumes "m \<in> set (groupby_agg rows)"
  shows "m = impact_of_group rows (metric_problem_id m)"
  using assms by (auto simp: groupby_agg_def impact_of_group_def Let_def)

lemma sort_values_descending_set: "set (sort_values_descending col rows) = set rows"
  by (simp add: sort_values_descending_def)

lemma sort_values_descending_sorted:
  "sorted_wrt (\<lambda>a b. col b \<le> col a) (sort_values_descending col rows)"
proof -
  have "sorted (map (\<lambda>r. - col r) (sort_key (\<lambda>r. - col r) rows))"
    by (rule sorted_sort_key)
  then show ?thesis
    by (simp add: sort_values_descending_def sorted_map)
qed

lemma sort_values_descending_distinct_map:
  "distinct (map f (sort_values_descending col rows)) = distinct (map f rows)"
proof -
  have "mset (map f (sort_values_descending col rows)) = mset (map f rows)"
    by (simp add: sort_values_descending_def)
  then show ?thesis by (metis distinct_count_atmost_1 set_mset_mset)
qed

lemma calculate_impact_metrics_eq:
  "calculate_impact_metrics logs =
     sort_values_descending Impact_Score
       (groupby_agg (drop_duplicates anomaly_problem_pair (filter is_reportable_warning logs)))"
  by (simp add: calculate_impact_metrics_def Let_def drop_duplicates_def groupby_agg_def
      unique_def sort_values_descending_def)

lemma distinct_pairs_count:
  assumes "distinct (map anomaly_problem_pair rows)"
  shows "length (filter (\<lambda>r. final_problem_id r = p) rows)
         = card {k \<in> anomaly_problem_pair ` set rows. snd k = p}"
proof -
  let ?members = "filter (\<lambda>r. final_problem_id r = p) rows"
  have d: "distinct (map anomaly_problem_pair ?members)"
    using assms by (rule distinct_map_filter)
  have "set (map anomaly_problem_pair ?members)
          = {k \<in> anomaly_problem_pair ` set rows. snd k = p}"
    by (auto simp: anomaly_problem_pair_def)
  with distinct_card[OF d] show ?thesis by simp
qed

text \<open>
  Claim C2, as amended. \<open>calculate_impact_metrics\<close> returns one row per problem id
  that has a reportable WARNING. In that row \<open>anomaly_count\<close> is the number of distinct
  \<open>(final_anomaly_id, final_problem_id)\<close> pairs of the problem,
  \<open>unique_systems_affected\<close> the number of distinct \<open>file_name\<close> values among the
  de-duplicated rows of the problem, and \<open>Impact_Score\<close> their product, which is not
  negative. The rows are in descending order of \<open>Impact_Score\<close>; equal scores may
  follow one another.
\<close>

theorem calculate_impact_metrics_rows:
  fixes classified_logs :: "log_record list"
  defines "deduplicated \<equiv>
     drop_duplicates anomaly_problem_pair (filter is_reportable_warning classified_logs)"
  shows "distinct (map metric_problem_id (calculate_impact_metrics classified_logs))
       \<and> set (map metric_problem_id (calculate_impact_metrics classified_logs))
           = final_problem_id ` {r \<in> set classified_logs. is_reportable_warning r}
       \<and> (\<forall>m \<in> set (calculate_impact_metrics classified_logs).
             anomaly_count m
               = int (card {k \<in> anomaly_problem_pair `
                                  {r \<in> set classified_logs. is_reportable_warning r}.
                            snd k = metric_problem_id m})
           \<and> unique_systems_affected m
               = int (card (file_name `
                       {r \<in> set deduplicated. final_problem_id r = metric_problem_id m}))
           \<and> Impact_Score m = anomaly_count m * unique_systems_affected m
           \<and> 0 \<le> Impact_Score m)
       \<and> sorted_wrt (\<lambda>a b. Impact_Score b \<le> Impact_Score a)
           (calculate_impact_metrics classified_logs)"
proof (intro conjI ballI)
  let ?M = "calculate_impact_metrics classified_logs"
  have M: "?M = sort_values_descending Impact_Score (groupby_agg deduplicated)"
    by (simp add: calculate_impact_metrics_eq deduplicated_def)
  have keys: "anomaly_problem_pair ` set deduplicated
                = anomaly_problem_pair ` {r \<in> set classified_logs. is_reportable_warning r}"
    by (simp add: deduplicated_def drop_duplicates_keys)
  have idx: "map metric_problem_id (groupby_agg deduplicated)
               = sort (unique (map final_problem_id deduplicated))"
    by (rule groupby_agg_index)
  show "distinct (map metric_problem_id ?M)"
    by (simp add: M sort_values_descending_distinct_map idx unique_distinct)
  have pid_image: "final_problem_id ` S = snd ` anomaly_problem_pair ` S" for S
    by (simp add: image_image anomaly_problem_pair_def)
  have "set (map metric_problem_id ?M) = final_problem_id ` set deduplicated"
    using arg_cong[OF idx, of set]
    by (simp add: M sort_values_descending_set unique_set)
  also have "\<dots> = final_problem_id ` {r \<in> set classified_logs. is_reportable_warning r}"
    unfolding pid_image keys ..
  finally show "set (map metric_problem_id ?M)
           = final_problem_id ` {r \<in> set classified_logs. is_reportable_warning r}" .
  show "sorted_wrt (\<lambda>a b. Impact_Score b \<le> Impact_Score a) ?M"
    by (simp add: M sort_values_descending_sorted)
  fix m assume "m \<in> set ?M"
  then have "m \<in> set (groupby_agg deduplicated)"
    by (simp add: M sort_values_descending_set)
  then have m: "m = impact_of_group deduplicated (metric_problem_id m)"
    by (rule groupby_agg_row)
  let ?p = "metric_problem_id m"
  let ?members = "filter (\<lambda>r. final_problem_id r = ?p) deduplicated"
  have n: "anomaly_count m = int (length ?members)"
    by (subst m) (simp add: impact_of_group_def Let_def)
  have u: "unique_systems_affected m = int (card (file_name ` set ?members))"
    by (subst m) (simp add: impact_of_group_def Let_def unique_length)
  have s: "Impact_Score m = anomaly_count m * unique_systems_affected m"
    by (subst m, subst (2) m, subst (3) m) (simp add: impact_of_group_def Let_def)
  have "distinct (map anomaly_problem_pair deduplicated)"
    by (simp add: deduplicated_def drop_duplicates_distinct)
  from distinct_pairs_count[OF this, of ?p]
  show "anomaly_count m
          = int (card {k \<in> anomaly_problem_pair `
                             {r \<in> set classified_logs. is_reportable_warning r}.
                       snd k = metric_problem_id m})"
    by (simp add: n keys)
  have "set ?members = {r \<in> set deduplicated. final_problem_id r = ?p}" by auto
  then show "unique_systems_affected m
               = int (card (file_name `
                       {r \<in> set deduplicated. final_problem_id r = metric_problem_id m}))"
    by (simp add: u)
  show "Impact_Score m = anomaly_count m * unique_systems_affected m" by (rule s)
  show "0 \<le> Impact_Score m" by (simp add: s n u)
qed

text \<open>The instance: problem 10 of the example table has two anomalies in two files.\<close>

theorem calculate_impact_metrics_rows_witness:
  "calculate_impact_metrics example_logs
     = [\<lparr>metric_problem_id = 10, anomaly_count = 2, unique_systems_affected = 2,
         Impact_Score = 4\<rparr>]
   \<and> final_problem_id ` {r \<in> set example_logs. is_reportable_warning r} = {10}
   \<and> card {k \<in> anomaly_problem_pair ` {r \<in> set example_logs. is_reportable_warning r}.
             snd k = 10} = 2"
proof -
  have c: "calculate_impact_metrics example_logs
     = [\<lparr>metric_problem_id = 10, anomaly_count = 2, unique_systems_affected = 2,
         Impact_Score = 4\<rparr>]"
    by (simp add: calculate_impact_metrics_def groupby_agg_def impact_of_group_def
        sort_values_descending_def unique_def drop_duplicates_def example_simps)
  from calculate_impact_metrics_rows[of example_logs]
  have s: "set (map metric_problem_id (calculate_impact_metrics example_logs))
           = final_problem_id ` {r \<in> set example_logs. is_reportable_warning r}"
    and a: "\<forall>m \<in> set (calculate_impact_metrics example_logs).
             anomaly_count m
               = int (card {k \<in> anomaly_problem_pair `
                                  {r \<in> set example_logs. is_reportable_warning r}.
                            snd k = metric_problem_id m})"
    by blast+
  from s have "final_problem_id ` {r \<in> set example_logs. is_reportable_warning r} = {10}"
    by (simp add: c)
  moreover from a have "card {k \<in> anomaly_problem_pair `
            {r \<in> set example_logs. is_reportable_warning r}. snd k = 10} = 2"
    by (simp add: c)
  ultimately show ?thesis using c by blast
qed

text \<open>
  Claim C2 as stated asks for a strictly descending order. Two problems with the same
  score are both returned, so the order cannot be strict.
\<close>

theorem impact_scores_not_strictly_descending:
  "map Impact_Score (calculate_impact_metrics tied_logs) = [1, 1]
   \<and> \<not> sorted_wrt (\<lambda>a b. Impact_Score b < Impact_Score a) (calculate_impact_metrics tied_logs)"
  by (simp add: calculate_impact_metrics_def groupby_agg_def impact_of_group_def
        sort_values_descending_def unique_def drop_duplicates_def tied_logs_def example_simps)

subsection \<open>Novel anomalies\<close>

lemma sort_values_set: "set (sort_values col rows) = set rows"
  by (simp add: sort_values_def)

lemma sort_values_sorted: "sorted (map col (sort_values col rows))"
  by (simp add: sort_values_def)

lemma sorted_last_greatest:
  "sorted (map f ys) \<Longrightarrow> x \<in> set ys \<Longrightarrow> f x \<le> f (last ys)"
  by (induction ys) auto

lemma sorted_filter_last_greatest:
  assumes "sorted (map f xs)" and "x \<in> set xs" and "P x"
  shows "f x \<le> f (last (filter P xs))"
proof -
  have "sorted (map f (filter P xs))"
    using assms(1) by (rule sorted_filter)
  moreover have "x \<in> set (filter P xs)"
    using assms(2,3) by simp
  ultimately show ?thesis by (rule sorted_last_greatest)
qed

lemma novel_alerts_loop_alerts:
  assumes sorted: "sorted (map Timestamp known_errors)"
    and R: "\<And>w e. e \<in> set known_errors \<Longrightarrow> in_window m w e \<Longrightarrow>
              (\<And>e'. e' \<in> set known_errors \<Longrightarrow> in_window m w e' \<Longrightarrow> Timestamp e' \<le> Timestamp e)
              \<Longrightarrow> R \<lparr>novel_scenario_id = sid, novel_anomaly_id = 0,
                     novel_problem_id = final_problem_id e, novel_file = file_name w,
                     novel_line = line_number w, novel_log = log w\<rparr> w"
  shows "list_all2 R (novel_alerts_loop m sid known_errors ws)
           (filter (\<lambda>w. \<exists>e \<in> set known_errors. in_window m w e) ws)"
proof (induction ws)
  case Nil
  show ?case by simp
next
  case (Cons w ws)
  show ?case
  proof (cases "filter (in_window m w) known_errors = []")
    case True
    then have "\<not> (\<exists>e \<in> set known_errors. in_window m w e)"
      by (simp add: filter_empty_conv)
    with True Cons show ?thesis by (simp add: potential_causes_def)
  next
    case False
    let ?c = "last (filter (in_window m w) known_errors)"
    from False have "?c \<in> set (filter (in_window m w) known_errors)" by (rule last_in_set)
    then have c: "?c \<in> set known_errors" "in_window m w ?c" by auto
    have "R \<lparr>novel_scenario_id = sid, novel_anomaly_id = 0,
             novel_problem_id = final_problem_id ?c, novel_file = file_name w,
             novel_line = line_number w, novel_log = log w\<rparr> w"
      using c sorted_filter_last_greatest[OF sorted] by (intro R)
    moreover from c have "\<exists>e \<in> set known_errors. in_window m w e" by blast
    ultimately show ?thesis using False Cons by (simp add: potential_causes_def Let_def)
  qed
qed

text \<open>
  Claim C3. The alerts of \<open>identify_novel_anomalies\<close> correspond, one to one and in
  order, to the de-duplicated unmatched WARNINGs for which some classified ERROR has a
  timestamp in \<open>[warning.timestamp - window, warning.timestamp]\<close>: a WARNING has an alert
  exactly when such an ERROR exists. The alert carries the WARNING's file, line and raw
  log, anomaly id 0, and the problem id of a qualifying ERROR whose timestamp no other
  qualifying ERROR exceeds. The function returns a list in every case.
\<close>

theorem identify_novel_anomalies_alerts:
  "list_all2
     (\<lambda>(alert::novel_alert) warning.
        novel_anomaly_id alert = 0
      \<and> novel_file alert = file_name warning
      \<and> novel_line alert = line_number warning
      \<and> novel_log alert = log warning
      \<and> (\<exists>e \<in> set classified_logs.
             is_classified_error e \<and> in_window window_minutes warning e
           \<and> novel_problem_id alert = final_problem_id e
           \<and> (\<forall>e' \<in> set classified_logs.
                 is_classified_error e' \<and> in_window window_minutes warning e'
                 \<longrightarrow> Timestamp e' \<le> Timestamp e)))
     (identify_novel_anomalies window_minutes classified_logs case_name)
     (filter (\<lambda>warning. \<exists>e \<in> set classified_logs.
                is_classified_error e \<and> in_window window_minutes warning e)
        (novel_warnings classified_logs))"
proof -
  define R where "R = (\<lambda>(alert::novel_alert) warning.
        novel_anomaly_id alert = 0
      \<and> novel_file alert = file_name warning
      \<and> novel_line alert = line_number warning
      \<and> novel_log alert = log warning
      \<and> (\<exists>e \<in> set classified_logs.
             is_classified_error e \<and> in_window window_minutes warning e
           \<and> novel_problem_id alert = final_problem_id e
           \<and> (\<forall>e' \<in> set classified_logs.
                 is_classified_error e' \<and> in_window window_minutes warning e'
                 \<longrightarrow> Timestamp e' \<le> Timestamp e)))"
  define K where "K = sort_values Timestamp (filter is_classified_error classified_logs)"
  define ws where "ws = novel_warnings classified_logs"
  have K: "set K = {e \<in> set classified_logs. is_classified_error e}"
    by (auto simp: K_def sort_values_set)
  have sorted: "sorted (map Timestamp K)"
    unfolding K_def by (rule sort_values_sorted)
  have ex: "(\<exists>e \<in> set classified_logs. is_classified_error e \<and> in_window window_minutes w e)
            = (\<exists>e \<in> set K. in_window window_minutes w e)" for w
    unfolding K by blast
  have "list_all2 R (novel_alerts_loop window_minutes (scenario_id_of case_name) K ws)
          (filter (\<lambda>w. \<exists>e \<in> set K. in_window window_minutes w e) ws)"
  proof (rule novel_alerts_loop_alerts[OF sorted])
    fix w e
    assume e: "e \<in> set K" "in_window window_minutes w e"
      and top: "\<And>e'. e' \<in> set K \<Longrightarrow> in_window window_minutes w e' \<Longrightarrow> Timestamp e' \<le> Timestamp e"
    from e K have "e \<in> set classified_logs" "is_classified_error e" by auto
    moreover from top K have "\<forall>e' \<in> set classified_logs.
                 is_classified_error e' \<and> in_window window_minutes w e'
                 \<longrightarrow> Timestamp e' \<le> Timestamp e" by auto
    ultimately show "R \<lparr>novel_scenario_id = scenario_id_of case_name, novel_anomaly_id = 0,
                     novel_problem_id = final_problem_id e, novel_file = file_name w,
                     novel_line = line_number w, novel_log = log w\<rparr> w"
      unfolding R_def using e(2) by auto
  qed
  then have loop: "list_all2 R (novel_alerts_loop window_minutes (scenario_id_of case_name) K ws)
          (filter (\<lambda>w. \<exists>e \<in> set classified_logs.
                is_classified_error e \<and> in_window window_minutes w e) ws)"
    by (simp only: ex)
  have "list_all2 R (identify_novel_anomalies window_minutes classified_logs case_name)
          (filter (\<lambda>w. \<exists>e \<in> set classified_logs.
                is_classified_error e \<and> in_window window_minutes w e) ws)"
  proof (cases "filter is_novel_warning classified_logs = []")
    case True
    then have "ws = []"
      by (simp add: ws_def novel_warnings_def drop_duplicates_def)
    with True show ?thesis
      by (simp add: identify_novel_anomalies_def)
  next
    case novel: False
    show ?thesis
    proof (cases "K = []")
      case True
      then have "\<not> (\<exists>e \<in> set classified_logs. is_classified_error e \<and> in_window window_minutes w e)" for w
        unfolding ex by simp
      then have "filter (\<lambda>w. \<exists>e \<in> set classified_logs.
                is_classified_error e \<and> in_window window_minutes w e) ws = []"
        by (simp add: filter_empty_conv)
      with True novel show ?thesis
        by (simp add: identify_novel_anomalies_def Let_def K_def)
    next
      case False
      with novel loop show ?thesis
        by (simp add: identify_novel_anomalies_def Let_def K_def ws_def)
    qed
  qed
  then show ?thesis unfolding R_def ws_def .
qed

text \<open>
  The instance, with a window of 5 minutes: the WARNING at \<open>t = 130\<close> is attributed to
  problem 20, the later of the two ERRORs in its window; the WARNING at \<open>t = 1000\<close> has
  no ERROR in its window and no alert.
\<close>

lemmas novel_simps = novel_logs_def example_warning_def example_error_def
  is_classified_error_def is_novel_warning_def in_window_def

theorem identify_novel_anomalies_alerts_witness:
  "identify_novel_anomalies 5 novel_logs ''case13''
     = [\<lparr>novel_scenario_id = ''13'', novel_anomaly_id = 0, novel_problem_id = 20,
         novel_file = ''a.txt'', novel_line = 131, novel_log = ''w''\<rparr>]
   \<and> novel_warnings novel_logs
       = [example_warning 130 0 0 ''a.txt'', example_warning 1000 0 0 ''b.txt'']
   \<and> filter (\<lambda>warning. \<exists>e \<in> set novel_logs. is_classified_error e \<and> in_window 5 warning e)
        (novel_warnings novel_logs) = [example_warning 130 0 0 ''a.txt'']
   \<and> length (identify_novel_anomalies 5 novel_logs ''case13'')
       = length (filter (\<lambda>warning. \<exists>e \<in> set novel_logs.
                           is_classified_error e \<and> in_window 5 warning e)
                   (novel_warnings novel_logs))"
proof -
  have a: "identify_novel_anomalies 5 novel_logs ''case13''
     = [\<lparr>novel_scenario_id = ''13'', novel_anomaly_id = 0, novel_problem_id = 20,
         novel_file = ''a.txt'', novel_line = 131, novel_log = ''w''\<rparr>]"
    by (simp add: identify_novel_anomalies_def novel_warnings_def drop_duplicates_def
        sort_values_def potential_causes_def scenario_id_of_def is_digit_def digits_def
        novel_simps)
  have w: "novel_warnings novel_logs
       = [example_warning 130 0 0 ''a.txt'', example_warning 1000 0 0 ''b.txt'']"
    by (simp add: novel_warnings_def drop_duplicates_def novel_simps)
  have f: "filter (\<lambda>warning. \<exists>e \<in> set novel_logs. is_classified_error e \<and> in_window 5 warning e)
        (novel_warnings novel_logs) = [example_warning 130 0 0 ''a.txt'']"
    unfolding w by (simp add: novel_simps)
  from identify_novel_anomalies_alerts[where window_minutes = 5
         and classified_logs = novel_logs and case_name = "''case13''"]
  have "length (identify_novel_anomalies 5 novel_logs ''case13'')
       = length (filter (\<lambda>warning. \<exists>e \<in> set novel_logs.
                           is_classified_error e \<and> in_window 5 warning e)
                   (novel_warnings novel_logs))"
    by (rule list_all2_lengthD)
  with a w f show ?thesis by blast
qed

subsection \<open>Loading the knowledge base\<close>

lemma tables_of_frame_cases:
  "tables_of_frame read \<noteq> Inl (FileNotFoundError p)"
  "tables_of_frame read \<noteq> Inl (ValueError_unsupported_format e)"
  "read = Inr kb_df \<Longrightarrow> tables_of_frame read = Inr (anomalies_kb_of kb_df, problems_kb_of kb_df)"
  by (auto simp: tables_of_frame_def split: sum.splits)

text \<open>
  Claim C9. \<open>load_knowledge_base\<close> raises \<open>FileNotFoundError\<close> exactly when the path
  does not exist. For an existing path it raises the unsupported-format \<open>ValueError\<close>
  exactly when the lower-cased extension is none of \<open>.csv\<close>, \<open>.xlsx\<close>, \<open>.xls\<close>.
  Otherwise it raises neither of the two, and it returns the pair of tables built from
  the frame that the pandas reader for the extension returns.
\<close>

theorem load_knowledge_base_errors:
  fixes env :: environment and kb_path :: string
  defines "ext \<equiv> map lower_char (splitext_extension kb_path)"
  shows "((\<exists>p. load_knowledge_base env kb_path = Inl (FileNotFoundError p))
            \<longleftrightarrow> \<not> path_exists env kb_path)
       \<and> (path_exists env kb_path \<longrightarrow>
            ((\<exists>e. load_knowledge_base env kb_path = Inl (ValueError_unsupported_format e))
               \<longleftrightarrow> ext \<notin> {''.csv'', ''.xlsx'', ''.xls''}))
       \<and> (path_exists env kb_path \<and> ext \<in> {''.csv'', ''.xlsx'', ''.xls''} \<longrightarrow>
            (\<forall>p. load_knowledge_base env kb_path \<noteq> Inl (FileNotFoundError p))
          \<and> (\<forall>e. load_knowledge_base env kb_path \<noteq> Inl (ValueError_unsupported_format e))
          \<and> (\<forall>kb_df.
                (if ext = ''.csv'' then read_csv env kb_path
                 else read_excel env kb_path
                        (if ext = ''.xlsx'' then Some ''openpyxl'' else None)) = Inr kb_df
                \<longrightarrow> load_knowledge_base env kb_path
                      = Inr (anomalies_kb_of kb_df, problems_kb_of kb_df)))"
proof (cases "path_exists env kb_path")
  case False
  then show ?thesis by (simp add: load_knowledge_base_def)
next
  case True
  consider (csv) "ext = ''.csv''" | (excel) "ext \<noteq> ''.csv''" "ext \<in> {''.xlsx'', ''.xls''}"
    | (other) "ext \<notin> {''.csv'', ''.xlsx'', ''.xls''}" by auto
  then show ?thesis
  proof cases
    case csv
    have "load_knowledge_base env kb_path = tables_of_frame (read_csv env kb_path)"
      using True csv by (simp add: load_knowledge_base_def ext_def Let_def)
    with True csv show ?thesis by (simp add: tables_of_frame_cases)
  next
    case excel
    have "load_knowledge_base env kb_path
            = tables_of_frame (read_excel env kb_path
                (if ext = ''.xlsx'' then Some ''openpyxl'' else None))"
      using True excel by (auto simp: load_knowledge_base_def ext_def Let_def)
    with True excel show ?thesis by (auto simp: tables_of_frame_cases)
  next
    case other
    then have "load_knowledge_base env kb_path = Inl (ValueError_unsupported_format ext)"
      using True by (auto simp: load_knowledge_base_def ext_def Let_def)
    with True other show ?thesis by simp
  qed
qed

text \<open>
  The instance: an existing catalog named \<open>anomalies_problems.CSV\<close> is read as CSV;
  a missing path and an existing \<open>.txt\<close> file give the two errors.
\<close>

lemmas path_simps = load_knowledge_base_def example_environment_def splitext_extension_def
  lower_char_def ascii_uppercase_def ascii_lowercase_def tables_of_frame_def Let_def

theorem load_knowledge_base_errors_witness:
  "path_exists example_environment ''/case/anomalies_problems.CSV''
   \<and> map lower_char (splitext_extension ''/case/anomalies_problems.CSV'') = ''.csv''
   \<and> load_knowledge_base example_environment ''/case/anomalies_problems.CSV''
       = Inr (anomalies_kb_of example_kb_df, problems_kb_of example_kb_df)
   \<and> load_knowledge_base example_environment ''/case/missing.csv''
       = Inl (FileNotFoundError ''/case/missing.csv'')
   \<and> load_knowledge_base example_environment ''/case/notes.txt''
       = Inl (ValueError_unsupported_format ''.txt'')"
proof -
  have x: "path_exists example_environment ''/case/anomalies_problems.CSV''"
    by (simp add: example_environment_def)
  have e: "map lower_char (splitext_extension ''/case/anomalies_problems.CSV'') = ''.csv''"
    by (simp add: path_simps)
  have r: "read_csv example_environment ''/case/anomalies_problems.CSV'' = Inr example_kb_df"
    by (simp add: example_environment_def)
  from load_knowledge_base_errors[of example_environment "''/case/anomalies_problems.CSV''"]
  have "load_knowledge_base example_environment ''/case/anomalies_problems.CSV''
       = Inr (anomalies_kb_of example_kb_df, problems_kb_of example_kb_df)"
    using x r unfolding e by simp
  moreover have "load_knowledge_base example_environment ''/case/missing.csv''
       = Inl (FileNotFoundError ''/case/missing.csv'')"
    by (simp add: path_simps)
  moreover have "load_knowledge_base example_environment ''/case/notes.txt''
       = Inl (ValueError_unsupported_format ''.txt'')"
    by (simp add: path_simps)
  ultimately show ?thesis using x e by blast
qed

subsection \<open>Predictive alerts\<close>

lemma occurred_anomalies_set:
  "set (unique (map final_anomaly_id (drop_duplicates anomaly_problem_pair rows)))
     = final_anomaly_id ` set rows"
proof -
  have "final_anomaly_id ` set (drop_duplicates anomaly_problem_pair rows)
          = fst ` anomaly_problem_pair ` set (drop_duplicates anomaly_problem_pair rows)"
    by (simp add: image_image anomaly_problem_pair_def)
  also have "\<dots> = fst ` anomaly_problem_pair ` set rows"
    by (simp only: drop_duplicates_keys)
  also have "\<dots> = final_anomaly_id ` set rows"
    by (simp add: image_image anomaly_problem_pair_def)
  finally show ?thesis by (simp add: unique_set)
qed

lemma sort_values_first_least:
  assumes "rows \<noteq> []"
  shows "\<exists>r rest. sort_values col rows = r # rest \<and> r \<in> set rows
           \<and> (\<forall>x \<in> set rows. col r \<le> col x)"
proof -
  from assms have "sort_values col rows \<noteq> []"
    by (metis set_empty sort_values_set)
  then obtain r rest where eq: "sort_values col rows = r # rest"
    by (cases "sort_values col rows") auto
  have "set (r # rest) = set rows" using sort_values_set[of col rows] eq by simp
  moreover have "sorted (map col (r # rest))" using sort_values_sorted[of col rows] eq by simp
  ultimately have "r \<in> set rows" and "\<forall>x \<in> set rows. col r \<le> col x"
    by auto
  with eq show ?thesis by blast
qed

lemma predictions_for_problem_detected:
  assumes "e0 \<in> set classified_logs" "is_classified_error e0" "final_problem_id e0 = pid"
  shows "\<exists>trigger.
    trigger \<in> set classified_logs \<and> is_classified_error trigger
    \<and> final_problem_id trigger = pid
    \<and> (\<forall>e \<in> set classified_logs. is_classified_error e \<and> final_problem_id e = pid
          \<longrightarrow> Timestamp trigger \<le> Timestamp e)
    \<and> predictions_for_problem classified_logs anomalies_kb problems_kb sid pid =
       Inr (map (\<lambda>anomaly_row.
                   \<lparr>alert_scenario_id = sid, trigger_problem_id = pid,
                    problem_description = problem_text_of problems_kb pid,
                    trigger_time = Timestamp trigger, trigger_log = log trigger,
                    predicted_anomaly_id = anomaly_id anomaly_row,
                    predicted_warning_text = Anomaly_Text anomaly_row\<rparr>)
              (filter (\<lambda>anomaly_row. problem_id anomaly_row = pid
                         \<and> anomaly_id anomaly_row \<notin> final_anomaly_id `
                              {w \<in> set classified_logs.
                                 Level w = ''WARNING'' \<and> final_problem_id w = pid})
                 anomalies_kb))"
proof -
  let ?errors = "filter (\<lambda>r. final_problem_id r = pid)
                   (filter is_classified_error classified_logs)"
  from assms have nonempty: "?errors \<noteq> []" by (auto simp: filter_empty_conv)
  obtain trigger rest where
    eq: "sort_values Timestamp ?errors = trigger # rest"
    and mem: "trigger \<in> set ?errors"
    and least: "\<And>x. x \<in> set ?errors \<Longrightarrow> Timestamp trigger \<le> Timestamp x"
    using sort_values_first_least[OF nonempty, where col = Timestamp] by blast
  have occ: "set (unique (map final_anomaly_id (drop_duplicates anomaly_problem_pair
               (filter (\<lambda>r. Level r = ''WARNING'' \<and> final_problem_id r = pid) classified_logs))))
             = final_anomaly_id ` {w \<in> set classified_logs.
                                 Level w = ''WARNING'' \<and> final_problem_id w = pid}"
    by (simp add: occurred_anomalies_set)
  have 1: "trigger \<in> set classified_logs \<and> is_classified_error trigger
            \<and> final_problem_id trigger = pid" using mem by auto
  have 2: "\<forall>e \<in> set classified_logs. is_classified_error e \<and> final_problem_id e = pid
          \<longrightarrow> Timestamp trigger \<le> Timestamp e"
    using least by simp
  have 3: "predictions_for_problem classified_logs anomalies_kb problems_kb sid pid =
       Inr (map (\<lambda>anomaly_row.
                   \<lparr>alert_scenario_id = sid, trigger_problem_id = pid,
                    problem_description = problem_text_of problems_kb pid,
                    trigger_time = Timestamp trigger, trigger_log = log trigger,
                    predicted_anomaly_id = anomaly_id anomaly_row,
                    predicted_warning_text = Anomaly_Text anomaly_row\<rparr>)
              (filter (\<lambda>anomaly_row. problem_id anomaly_row = pid
                         \<and> anomaly_id anomaly_row \<notin> final_anomaly_id `
                              {w \<in> set classified_logs.
                                 Level w = ''WARNING'' \<and> final_problem_id w = pid})
                 anomalies_kb))"
    unfolding predictions_for_problem_def Let_def eq occ
    by (simp add: iloc_first_def conj_commute)
  from 1 2 3 show ?thesis by blast
qed

lemma predictions_loop_Inr:
  assumes "\<And>pid. pid \<in> set pids \<Longrightarrow>
             \<exists>ps. predictions_for_problem logs akb pkb sid pid = Inr ps"
  shows "predictions_loop logs akb pkb sid pids =
           Inr (concat (map (\<lambda>pid. projr (predictions_for_problem logs akb pkb sid pid)) pids))"
  using assms
proof (induction pids)
  case Nil
  show ?case by simp
next
  case (Cons pid pids)
  from Cons.prems[of pid] obtain ps
    where ps: "predictions_for_problem logs akb pkb sid pid = Inr ps" by auto
  have "predictions_loop logs akb pkb sid pids =
           Inr (concat (map (\<lambda>pid. projr (predictions_for_problem logs akb pkb sid pid)) pids))"
    using Cons.prems by (intro Cons.IH) simp
  with ps show ?case by simp
qed

lemma generate_predictive_alerts_eq:
  "generate_predictive_alerts logs akb pkb case_name =
     Inr (concat (map (\<lambda>pid. projr (predictions_for_problem logs akb pkb
                                        (scenario_id_of case_name) pid))
                    (unique (map final_problem_id (filter is_classified_error logs)))))"
proof (cases "filter is_classified_error logs = []")
  case True
  then show ?thesis
    by (simp add: generate_predictive_alerts_def unique_def drop_duplicates_def)
next
  case False
  have "predictions_loop logs akb pkb (scenario_id_of case_name)
          (unique (map final_problem_id (filter is_classified_error logs)))
        = Inr (concat (map (\<lambda>pid. projr (predictions_for_problem logs akb pkb
                                        (scenario_id_of case_name) pid))
                    (unique (map final_problem_id (filter is_classified_error logs)))))"
  proof (rule predictions_loop_Inr)
    fix pid
    assume "pid \<in> set (unique (map final_problem_id (filter is_classified_error logs)))"
    then obtain e0 where "e0 \<in> set logs" "is_classified_error e0" "final_problem_id e0 = pid"
      by (auto simp: unique_set)
    then show "\<exists>ps. predictions_for_problem logs akb pkb (scenario_id_of case_name) pid = Inr ps"
      using predictions_for_problem_detected[of e0 logs pid akb pkb "scenario_id_of case_name"]
      by blast
  qed
  with False show ?thesis by (simp add: generate_predictive_alerts_def Let_def)
qed


lemma filter_concat_blocks:
  assumes "distinct pids" and "p \<in> set pids"
    and "\<And>pid x. pid \<in> set pids \<Longrightarrow> x \<in> set (block pid) \<Longrightarrow> key x = pid"
  shows "filter (\<lambda>x. key x = p \<and> Q x) (concat (map block pids)) = filter Q (block p)"
  using assms
proof (induction pids)
  case Nil
  then show ?case by simp
next
  case (Cons q pids)
  have key: "\<And>pid x. pid \<in> set pids \<Longrightarrow> x \<in> set (block pid) \<Longrightarrow> key x = pid"
    and keyq: "\<And>x. x \<in> set (block q) \<Longrightarrow> key x = q"
    using Cons.prems(3) by simp_all
  show ?case
  proof (cases "q = p")
    case True
    with Cons.prems(1) have "p \<notin> set pids" by simp
    with key have "filter (\<lambda>x. key x = p \<and> Q x) (concat (map block pids)) = []"
      by (auto simp: filter_empty_conv)
    moreover have "filter (\<lambda>x. key x = p \<and> Q x) (block p) = filter Q (block p)"
      using keyq True by (intro filter_cong) auto
    ultimately show ?thesis using True by simp
  next
    case False
    with Cons.prems(2) have "p \<in> set pids" by simp
    moreover from Cons.prems(1) have "distinct pids" by simp
    ultimately have "filter (\<lambda>x. key x = p \<and> Q x) (concat (map block pids)) = filter Q (block p)"
      using key by (intro Cons.IH)
    moreover have "filter (\<lambda>x. key x = p \<and> Q x) (block q) = []"
      using keyq False by (auto simp: filter_empty_conv)
    ultimately show ?thesis by simp
  qed
qed

text \<open>
  Claim C4. \<open>generate_predictive_alerts\<close> returns a list of alerts without raising.
  In every alert the predicted anomaly id is the id of no WARNING record classified to
  the trigger problem id, and the trigger time and raw log are those of an ERROR record
  of that problem id whose timestamp no other ERROR record of the problem precedes. With
  no ERROR record of non-zero problem id the list is empty.
\<close>

theorem generate_predictive_alerts_sound:
  "\<exists>alerts.
     generate_predictive_alerts classified_logs anomalies_kb problems_kb case_name = Inr alerts
   \<and> (\<forall>a \<in> set alerts.
         trigger_problem_id a \<noteq> 0
       \<and> predicted_anomaly_id a \<notin> final_anomaly_id `
            {w \<in> set classified_logs.
               Level w = ''WARNING'' \<and> final_problem_id w = trigger_problem_id a}
       \<and> (\<exists>e \<in> set classified_logs.
              Level e = ''ERROR'' \<and> final_problem_id e = trigger_problem_id a
            \<and> trigger_time a = Timestamp e \<and> trigger_log a = log e
            \<and> (\<forall>e' \<in> set classified_logs.
                  Level e' = ''ERROR'' \<and> final_problem_id e' = trigger_problem_id a
                  \<longrightarrow> Timestamp e \<le> Timestamp e')))
   \<and> ((\<forall>e \<in> set classified_logs. \<not> is_classified_error e) \<longrightarrow> alerts = [])"
proof -
  let ?sid = "scenario_id_of case_name"
  let ?pids = "unique (map final_problem_id (filter is_classified_error classified_logs))"
  let ?block = "\<lambda>pid. projr (predictions_for_problem classified_logs anomalies_kb
                               problems_kb ?sid pid)"
  let ?alerts = "concat (map ?block ?pids)"
  have eq: "generate_predictive_alerts classified_logs anomalies_kb problems_kb case_name
              = Inr ?alerts"
    by (rule generate_predictive_alerts_eq)
  have each: "trigger_problem_id a \<noteq> 0
       \<and> predicted_anomaly_id a \<notin> final_anomaly_id `
            {w \<in> set classified_logs.
               Level w = ''WARNING'' \<and> final_problem_id w = trigger_problem_id a}
       \<and> (\<exists>e \<in> set classified_logs.
              Level e = ''ERROR'' \<and> final_problem_id e = trigger_problem_id a
            \<and> trigger_time a = Timestamp e \<and> trigger_log a = log e
            \<and> (\<forall>e' \<in> set classified_logs.
                  Level e' = ''ERROR'' \<and> final_problem_id e' = trigger_problem_id a
                  \<longrightarrow> Timestamp e \<le> Timestamp e'))"
    if "a \<in> set ?alerts" for a
  proof -
    from that obtain pid where pid: "pid \<in> set ?pids" and a: "a \<in> set (?block pid)"
      by auto
    from pid obtain e0 where e0: "e0 \<in> set classified_logs" "is_classified_error e0"
      "final_problem_id e0 = pid"
      by (auto simp: unique_set)
    from predictions_for_problem_detected[OF e0, of anomalies_kb problems_kb ?sid]
    obtain trigger where
      t: "trigger \<in> set classified_logs" "is_classified_error trigger"
         "final_problem_id trigger = pid"
      and least: "\<forall>e \<in> set classified_logs. is_classified_error e \<and> final_problem_id e = pid
                   \<longrightarrow> Timestamp trigger \<le> Timestamp e"
      and block: "predictions_for_problem classified_logs anomalies_kb problems_kb ?sid pid =
       Inr (map (\<lambda>anomaly_row.
                   \<lparr>alert_scenario_id = ?sid, trigger_problem_id = pid,
                    problem_description = problem_text_of problems_kb pid,
                    trigger_time = Timestamp trigger, trigger_log = log trigger,
                    predicted_anomaly_id = anomaly_id anomaly_row,
                    predicted_warning_text = Anomaly_Text anomaly_row\<rparr>)
              (filter (\<lambda>anomaly_row. problem_id anomaly_row = pid
                         \<and> anomaly_id anomaly_row \<notin> final_anomaly_id `
                              {w \<in> set classified_logs.
                                 Level w = ''WARNING'' \<and> final_problem_id w = pid})
                 anomalies_kb))"
      by blast
    from a have "a \<in> (\<lambda>anomaly_row.
                   \<lparr>alert_scenario_id = ?sid, trigger_problem_id = pid,
                    problem_description = problem_text_of problems_kb pid,
                    trigger_time = Timestamp trigger, trigger_log = log trigger,
                    predicted_anomaly_id = anomaly_id anomaly_row,
                    predicted_warning_text = Anomaly_Text anomaly_row\<rparr>) `
              set (filter (\<lambda>anomaly_row. problem_id anomaly_row = pid
                         \<and> anomaly_id anomaly_row \<notin> final_anomaly_id `
                              {w \<in> set classified_logs.
                                 Level w = ''WARNING'' \<and> final_problem_id w = pid})
                 anomalies_kb)"
      unfolding block by simp
    then obtain k where kin: "k \<in> set (filter (\<lambda>anomaly_row. problem_id anomaly_row = pid
                         \<and> anomaly_id anomaly_row \<notin> final_anomaly_id `
                              {w \<in> set classified_logs.
                                 Level w = ''WARNING'' \<and> final_problem_id w = pid})
                 anomalies_kb)"
      and ak: "a = \<lparr>alert_scenario_id = ?sid, trigger_problem_id = pid,
                    problem_description = problem_text_of problems_kb pid,
                    trigger_time = Timestamp trigger, trigger_log = log trigger,
                    predicted_anomaly_id = anomaly_id k,
                    predicted_warning_text = Anomaly_Text k\<rparr>"
      by (rule imageE)
    from kin have k: "anomaly_id k \<notin> final_anomaly_id `
                              {w \<in> set classified_logs.
                                 Level w = ''WARNING'' \<and> final_problem_id w = pid}"
      by simp
    have nz: "pid \<noteq> 0" using t by (auto simp: is_classified_error_def)
    have err: "Level trigger = ''ERROR''" using t by (simp add: is_classified_error_def)
    have "\<forall>e' \<in> set classified_logs.
            Level e' = ''ERROR'' \<and> final_problem_id e' = pid
            \<longrightarrow> Timestamp trigger \<le> Timestamp e'"
      using least nz by (auto simp: is_classified_error_def)
    with t err have "\<exists>e \<in> set classified_logs.
              Level e = ''ERROR'' \<and> final_problem_id e = pid
            \<and> Timestamp trigger = Timestamp e \<and> log trigger = log e
            \<and> (\<forall>e' \<in> set classified_logs.
                  Level e' = ''ERROR'' \<and> final_problem_id e' = pid
                  \<longrightarrow> Timestamp e \<le> Timestamp e')"
      by blast
    with k nz show ?thesis unfolding ak by simp
  qed
  have none: "?alerts = []" if "\<forall>e \<in> set classified_logs. \<not> is_classified_error e"
  proof -
    from that have "filter is_classified_error classified_logs = []"
      by (simp add: filter_empty_conv)
    then show ?thesis by (simp add: unique_def drop_duplicates_def)
  qed
  from eq each none show ?thesis by blast
qed

text \<open>
  The instance: the trigger is the ERROR at \<open>t = 3\<close>, not the earlier row at \<open>t = 7\<close>;
  anomaly 2 has occurred and is not predicted.
\<close>

lemmas predictive_simps = generate_predictive_alerts_def predictions_for_problem_def
  iloc_first_def problem_text_of_def sort_values_def unique_def drop_duplicates_def
  scenario_id_of_def is_digit_def digits_def predictive_logs_def example_warning_def
  example_error_def is_classified_error_def anomaly_problem_pair_def Let_def

theorem generate_predictive_alerts_sound_witness:
  "generate_predictive_alerts predictive_logs
     [\<lparr>anomaly_id = 1, problem_id = 10, Generalized_Anomaly = ''slow'', Anomaly_Text = Str ''Slow''\<rparr>,
      \<lparr>anomaly_id = 2, problem_id = 10, Generalized_Anomaly = ''full'', Anomaly_Text = Str ''Full''\<rparr>]
     [] ''case13''
   = Inr [\<lparr>alert_scenario_id = ''13'', trigger_problem_id = 10,
           problem_description = Description_missing 10,
           trigger_time = 3, trigger_log = ''e'', predicted_anomaly_id = 1,
           predicted_warning_text = Str ''Slow''\<rparr>]
   \<and> final_anomaly_id ` {w \<in> set predictive_logs.
                            Level w = ''WARNING'' \<and> final_problem_id w = 10} = {2}"
proof -
  let ?kb = "[\<lparr>anomaly_id = 1, problem_id = 10, Generalized_Anomaly = ''slow'',
               Anomaly_Text = Str ''Slow''\<rparr>,
              \<lparr>anomaly_id = 2, problem_id = 10, Generalized_Anomaly = ''full'',
               Anomaly_Text = Str ''Full''\<rparr>]"
  have r: "generate_predictive_alerts predictive_logs ?kb [] ''case13''
   = Inr [\<lparr>alert_scenario_id = ''13'', trigger_problem_id = 10,
           problem_description = Description_missing 10,
           trigger_time = 3, trigger_log = ''e'', predicted_anomaly_id = 1,
           predicted_warning_text = Str ''Slow''\<rparr>]"
    by (simp add: predictive_simps)
  have o: "final_anomaly_id ` {w \<in> set predictive_logs.
                            Level w = ''WARNING'' \<and> final_problem_id w = 10} = {2}"
    unfolding set_filter[symmetric]
    by (simp add: predictive_logs_def example_warning_def example_error_def del: set_filter)
  from generate_predictive_alerts_sound[of predictive_logs ?kb "[]" "''case13''"]
  obtain alerts where "generate_predictive_alerts predictive_logs ?kb [] ''case13'' = Inr alerts"
    by blast
  with r o show ?thesis by simp
qed

lemma map_constant_on:
  assumes "\<And>x. x \<in> set xs \<Longrightarrow> f x = c"
  shows "map f xs = replicate (length xs) c"
  using assms by (induction xs) auto

lemma anomalies_kb_of_count:
  "length (filter (\<lambda>k. problem_id k = p \<and> anomaly_id k = a \<and> Anomaly_Text k = t)
             (anomalies_kb_of kb_df))
   = length (filter (\<lambda>(aid, atext, pid, ptext). aid = a \<and> pid = p \<and> atext = t) kb_df)"
  by (induction kb_df) (auto simp: anomalies_kb_of_def)

text \<open>
  Claim C10. \<open>anomalies_kb\<close> keeps every row of the catalog, and
  \<open>generate_predictive_alerts\<close> emits one alert per row of \<open>anomalies_kb\<close> whose anomaly
  id has not occurred for the trigger problem. So for a problem \<open>p\<close> with a classified
  ERROR and an anomaly \<open>a\<close> that has not occurred for it, the alerts that predict \<open>a\<close>
  (with text \<open>t\<close>) for \<open>p\<close> are as many copies of one and the same alert as the catalog
  has rows \<open>(a, t, p, _)\<close>.
\<close>

theorem predictive_alerts_repeat_per_catalog_row:
  assumes "e \<in> set classified_logs" "is_classified_error e" "final_problem_id e = p"
    and "a \<notin> final_anomaly_id `
           {w \<in> set classified_logs. Level w = ''WARNING'' \<and> final_problem_id w = p}"
  shows "\<exists>alerts alert.
     generate_predictive_alerts classified_logs (anomalies_kb_of kb_df) problems_kb case_name
       = Inr alerts
   \<and> length (filter (\<lambda>x. trigger_problem_id x = p) alerts)
       = length (filter (\<lambda>k. problem_id k = p
                   \<and> anomaly_id k \<notin> final_anomaly_id `
                        {w \<in> set classified_logs.
                           Level w = ''WARNING'' \<and> final_problem_id w = p})
                   (anomalies_kb_of kb_df))
   \<and> filter (\<lambda>x. trigger_problem_id x = p
                \<and> predicted_anomaly_id x = a \<and> predicted_warning_text x = t) alerts
       = replicate
           (length (filter (\<lambda>(aid, atext, pid, ptext). aid = a \<and> pid = p \<and> atext = t) kb_df))
           alert"
proof -
  let ?akb = "anomalies_kb_of kb_df"
  let ?sid = "scenario_id_of case_name"
  let ?pids = "unique (map final_problem_id (filter is_classified_error classified_logs))"
  let ?block = "\<lambda>pid. projr (predictions_for_problem classified_logs ?akb problems_kb ?sid pid)"
  let ?alerts = "concat (map ?block ?pids)"
  let ?occ = "final_anomaly_id `
                {w \<in> set classified_logs. Level w = ''WARNING'' \<and> final_problem_id w = p}"
  have eq: "generate_predictive_alerts classified_logs ?akb problems_kb case_name = Inr ?alerts"
    by (rule generate_predictive_alerts_eq)
  have distinct: "distinct ?pids" by (rule unique_distinct)
  have p: "p \<in> set ?pids" using assms(1-3) by (auto simp: unique_set)
  have key: "trigger_problem_id x = pid" if "pid \<in> set ?pids" "x \<in> set (?block pid)" for pid x
  proof -
    from that(1) obtain e0 where "e0 \<in> set classified_logs" "is_classified_error e0"
      "final_problem_id e0 = pid" by (auto simp: unique_set)
    from predictions_for_problem_detected[OF this, of ?akb problems_kb ?sid]
    obtain tr :: log_record where
      "predictions_for_problem classified_logs ?akb problems_kb ?sid pid =
         Inr (map (\<lambda>anomaly_row.
                   \<lparr>alert_scenario_id = ?sid, trigger_problem_id = pid,
                    problem_description = problem_text_of problems_kb pid,
                    trigger_time = Timestamp tr, trigger_log = log tr,
                    predicted_anomaly_id = anomaly_id anomaly_row,
                    predicted_warning_text = Anomaly_Text anomaly_row\<rparr>)
               (filter (\<lambda>anomaly_row. problem_id anomaly_row = pid
                         \<and> anomaly_id anomaly_row \<notin> final_anomaly_id `
                              {w \<in> set classified_logs.
                                 Level w = ''WARNING'' \<and> final_problem_id w = pid}) ?akb))"
      by blast
    with that(2) show ?thesis by auto
  qed
  from predictions_for_problem_detected[OF assms(1-3), of ?akb problems_kb ?sid]
  obtain trigger :: log_record where
    "predictions_for_problem classified_logs ?akb problems_kb ?sid p =
       Inr (map (\<lambda>anomaly_row.
                   \<lparr>alert_scenario_id = ?sid, trigger_problem_id = p,
                    problem_description = problem_text_of problems_kb p,
                    trigger_time = Timestamp trigger, trigger_log = log trigger,
                    predicted_anomaly_id = anomaly_id anomaly_row,
                    predicted_warning_text = Anomaly_Text anomaly_row\<rparr>)
              (filter (\<lambda>anomaly_row. problem_id anomaly_row = p
                         \<and> anomaly_id anomaly_row \<notin> ?occ) ?akb))"
    by blast
  then have block: "?block p =
       map (\<lambda>anomaly_row.
                   \<lparr>alert_scenario_id = ?sid, trigger_problem_id = p,
                    problem_description = problem_text_of problems_kb p,
                    trigger_time = Timestamp trigger, trigger_log = log trigger,
                    predicted_anomaly_id = anomaly_id anomaly_row,
                    predicted_warning_text = Anomaly_Text anomaly_row\<rparr>)
              (filter (\<lambda>anomaly_row. problem_id anomaly_row = p
                         \<and> anomaly_id anomaly_row \<notin> ?occ) ?akb)"
    by simp
  define alert where "alert =
     \<lparr>alert_scenario_id = ?sid, trigger_problem_id = p,
      problem_description = problem_text_of problems_kb p,
      trigger_time = Timestamp trigger, trigger_log = log trigger,
      predicted_anomaly_id = a, predicted_warning_text = t\<rparr>"
  have "filter (\<lambda>x. trigger_problem_id x = p \<and> True) ?alerts = filter (\<lambda>x. True) (?block p)"
    using distinct p key by (rule filter_concat_blocks)
  then have count: "length (filter (\<lambda>x. trigger_problem_id x = p) ?alerts)
       = length (filter (\<lambda>k. problem_id k = p \<and> anomaly_id k \<notin> ?occ) ?akb)"
    by (simp add: block)
  have "filter (\<lambda>x. trigger_problem_id x = p
                \<and> predicted_anomaly_id x = a \<and> predicted_warning_text x = t) ?alerts
        = filter (\<lambda>x. predicted_anomaly_id x = a \<and> predicted_warning_text x = t) (?block p)"
    using distinct p key by (rule filter_concat_blocks)
  also have "\<dots> = map (\<lambda>anomaly_row.
                   \<lparr>alert_scenario_id = ?sid, trigger_problem_id = p,
                    problem_description = problem_text_of problems_kb p,
                    trigger_time = Timestamp trigger, trigger_log = log trigger,
                    predicted_anomaly_id = anomaly_id anomaly_row,
                    predicted_warning_text = Anomaly_Text anomaly_row\<rparr>)
              (filter (\<lambda>k. problem_id k = p \<and> anomaly_id k = a \<and> Anomaly_Text k = t) ?akb)"
    unfolding block filter_map comp_def filter_filter using assms(4)
    by (intro arg_cong[where f = "map _"] filter_cong) auto
  also have "\<dots> = replicate
      (length (filter (\<lambda>k. problem_id k = p \<and> anomaly_id k = a \<and> Anomaly_Text k = t) ?akb))
      alert"
    by (rule map_constant_on) (simp add: alert_def)
  finally have "filter (\<lambda>x. trigger_problem_id x = p
                \<and> predicted_anomaly_id x = a \<and> predicted_warning_text x = t) ?alerts
       = replicate
           (length (filter (\<lambda>(aid, atext, pid, ptext). aid = a \<and> pid = p \<and> atext = t) kb_df))
           alert"
    by (simp only: anomalies_kb_of_count)
  with eq count show ?thesis by blast
qed

text \<open>
  The instance: the catalog \<open>example_kb_df\<close> lists anomaly 1 of problem 10 twice, and
  the run predicts it twice, with one and the same alert.
\<close>

theorem predictive_alerts_repeat_per_catalog_row_witness:
  "example_error 3 10 ''a.txt'' \<in> set predictive_logs
   \<and> is_classified_error (example_error 3 10 ''a.txt'')
   \<and> 1 \<notin> final_anomaly_id `
         {w \<in> set predictive_logs. Level w = ''WARNING'' \<and> final_problem_id w = 10}
   \<and> length (filter (\<lambda>(aid, atext, pid, ptext).
                aid = 1 \<and> pid = 10 \<and> atext = Str ''Disk latency above 200 ms'') example_kb_df) = 2
   \<and> generate_predictive_alerts predictive_logs (anomalies_kb_of example_kb_df) [] ''case13''
     = Inr (replicate 2
             \<lparr>alert_scenario_id = ''13'', trigger_problem_id = 10,
              problem_description = Description_missing 10,
              trigger_time = 3, trigger_log = ''e'', predicted_anomaly_id = 1,
              predicted_warning_text = Str ''Disk latency above 200 ms''\<rparr>)"
proof -
  have m: "example_error 3 10 ''a.txt'' \<in> set predictive_logs"
    by (simp add: predictive_logs_def)
  have c: "is_classified_error (example_error 3 10 ''a.txt'')"
    by (simp add: is_classified_error_def example_error_def)
  have f: "final_problem_id (example_error 3 10 ''a.txt'') = 10"
    by (simp add: example_error_def)
  have o: "1 \<notin> final_anomaly_id `
         {w \<in> set predictive_logs. Level w = ''WARNING'' \<and> final_problem_id w = 10}"
    unfolding set_filter[symmetric]
    by (simp add: predictive_logs_def example_warning_def example_error_def del: set_filter)
  have n: "length (filter (\<lambda>(aid, atext, pid, ptext).
                aid = 1 \<and> pid = 10 \<and> atext = Str ''Disk latency above 200 ms'') example_kb_df) = 2"
    by (simp add: example_kb_df_def)
  have r: "generate_predictive_alerts predictive_logs (anomalies_kb_of example_kb_df) [] ''case13''
     = Inr (replicate 2
             \<lparr>alert_scenario_id = ''13'', trigger_problem_id = 10,
              problem_description = Description_missing 10,
              trigger_time = 3, trigger_log = ''e'', predicted_anomaly_id = 1,
              predicted_warning_text = Str ''Disk latency above 200 ms''\<rparr>)"
    by (simp add: predictive_simps anomalies_kb_of_def example_kb_df_def numeral_2_eq_2)
  from predictive_alerts_repeat_per_catalog_row[OF m c f o,
         of example_kb_df "[]" "''case13''" "Str ''Disk latency above 200 ms''"]
  obtain alerts where
    "generate_predictive_alerts predictive_logs (anomalies_kb_of example_kb_df) [] ''case13''
       = Inr alerts" by blast
  with m c o n r show ?thesis by simp
qed

subsection \<open>Lines kept by the parser\<close>

lemmas parse_simps = parse_log_line_def timestamp_shape_def strip_def is_space_def
  is_word_def is_digit_def digits_def ascii_lowercase_def ascii_uppercase_def Let_def
  upt_rec

text \<open>
  Claim C7 says that a line is excluded for being of level INFO, not for mentioning
  INFO. The code tests for the text \<open>' INFO '\<close> anywhere in the line: a WARNING line
  whose message holds the word INFO between spaces parses with level WARNING and is
  skipped all the same, while the same line with another word is kept.
\<close>

theorem warning_line_mentioning_info_is_skipped:
  "parse_log_line ''2024-01-15T10:30:45 WARNING Db: got INFO from peer''
     = (Some ''2024-01-15T10:30:45'', ''WARNING'', ''Db'', ''got INFO from peer'')
   \<and> all_logs [(''app.txt'',
                 [''2024-01-15T10:30:45 WARNING Db: got INFO from peer'' @ [CHR 0x0A]])] = []
   \<and> all_logs [(''app.txt'',
                 [''2024-01-15T10:30:45 WARNING Db: got data from peer'' @ [CHR 0x0A]])]
       = [\<lparr>entry_Timestamp = Some ''2024-01-15T10:30:45'', entry_Level = ''WARNING'',
           entry_Message = ''got data from peer'', entry_file_name = ''app.txt'',
           entry_line_number = 1,
           entry_log = ''2024-01-15T10:30:45 WARNING Db: got data from peer''\<rparr>]"
  by (simp add: all_logs_def parse_simps)

text \<open>The two examples of the docstring of \<open>parse_log_line\<close>.\<close>

lemma parse_log_line_example_match:
  "parse_log_line ''2024-01-15T10:30:45 ERROR Database: Connection timeout''
     = (Some ''2024-01-15T10:30:45'', ''ERROR'', ''Database'', ''Connection timeout'')"
  by (simp add: parse_simps)

lemma parse_log_line_example_no_match:
  "parse_log_line ''Invalid log line'' = (None, ''UNKNOWN'', ''UNKNOWN'', ''Invalid log line'')"
  by (simp add: parse_simps)

subsection \<open>Character classes\<close>

lemmas char_class_defs = is_word_def is_space_def is_digit_def is_hex_digit_def
  digits_def ascii_lowercase_def ascii_uppercase_def

lemma digit_is_word: "is_digit c \<Longrightarrow> is_word c"
  by (auto simp: char_class_defs)

lemma space_not_word: "is_space c \<Longrightarrow> \<not> is_word c"
  by (auto simp: char_class_defs)

lemma space_not_digit: "is_space c \<Longrightarrow> \<not> is_digit c"
  by (auto simp: char_class_defs)

lemma lower_char_not_upper: "lower_char c \<notin> set ascii_uppercase"
  by (auto simp: lower_char_def char_class_defs)

lemma lower_char_id: "c \<notin> set ascii_uppercase \<Longrightarrow> lower_char c = c"
  by (auto simp: lower_char_def char_class_defs)

lemma word_not_upper:
  "is_word c \<Longrightarrow> c \<notin> set ascii_uppercase \<Longrightarrow> c \<in> set (ascii_lowercase @ digits @ ''_'')"
  by (auto simp: char_class_defs)

subsection \<open>Substitution in general\<close>

declare re_sub.simps(2) [simp del]

lemma re_sub_no_match:
  "\<not> re_search m prev t \<Longrightarrow> re_sub m repl prev t = t"
  by (induction t arbitrary: prev) (auto simp: re_sub.simps(2))

lemma re_sub_chars: "set (re_sub m repl prev t) \<subseteq> set t \<union> set repl"
proof (induction m repl prev t rule: re_sub.induct)
  case (1 m repl prev)
  show ?case by simp
next
  case (2 m repl prev c cs)
  show ?case
  proof (cases "m prev (c # cs)")
    case None
    with 2(1) show ?thesis by (auto simp: re_sub.simps(2))
  next
    case (Some n)
    show ?thesis
    proof (cases "n = 0")
      case True
      with Some 2(2) show ?thesis by (auto simp: re_sub.simps(2))
    next
      case False
      have "set (drop n (c # cs)) \<subseteq> set (c # cs)" by (rule set_drop_subset)
      with Some False 2(3)[OF Some False] show ?thesis by (auto simp: re_sub.simps(2))
    qed
  qed
qed

lemma re_search_never:
  assumes "\<And>p u. set u \<subseteq> S \<Longrightarrow> m p u = None" and "set t \<subseteq> S"
  shows "\<not> re_search m prev t"
  using assms(2)
proof (induction t arbitrary: prev)
  case Nil
  show ?case by simp
next
  case (Cons c cs)
  then show ?case using assms(1)[of "c # cs"] by simp
qed

subsection \<open>Standalone numbers\<close>

lemma number_match_alt:
  "number_match p t =
     (if \<not> word_before p \<and> takeWhile is_digit t \<noteq> [] \<and> boundary_after (dropWhile is_digit t)
      then Some (length (takeWhile is_digit t)) else None)"
  by (auto simp: number_match_def digit_run_def Let_def dropWhile_eq_drop Suc_le_eq)

lemma number_match_not_digit: "\<not> is_digit c \<Longrightarrow> number_match p (c # cs) = None"
  by (simp add: number_match_alt)

lemma number_match_word_before: "word_before p \<Longrightarrow> number_match p t = None"
  by (simp add: number_match_alt)

lemma number_match_Nil: "number_match p [] = None"
  by (simp add: number_match_alt)

lemma number_match_prev:
  "word_before p = word_before q \<Longrightarrow> number_match p t = number_match q t"
  by (simp add: number_match_alt)

lemma number_search_prev:
  "word_before p = word_before q \<Longrightarrow>
     re_search number_match p t = re_search number_match q t"
  by (cases t) (simp_all add: number_match_prev[of p q])

text \<open>
  A rewriting \<open>F\<close> of texts keeps the profile of a text when it keeps its leading run
  of digits and the kind of the character that ends the run.
\<close>

lemma number_match_profile:
  assumes "takeWhile is_digit u = takeWhile is_digit v"
    and "boundary_after (dropWhile is_digit u) = boundary_after (dropWhile is_digit v)"
  shows "number_match p (c # u) = number_match p (c # v)"
  using assms by (simp add: number_match_alt)

subsubsection \<open>The number substitution leaves no standalone number\<close>

lemma number_sub_prev:
  "word_before p = word_before q \<Longrightarrow>
     re_sub number_match r p t = re_sub number_match r q t"
  by (cases t) (simp_all add: re_sub.simps(2) number_match_prev[of p q])

lemma word_before_Some: "word_before (Some c) = is_word c"
  by (simp add: word_before_def)

lemma number_sub_Cons:
  "re_sub number_match r p (c # cs) =
     (if number_match p (c # cs) = None then c # re_sub number_match r (Some c) cs
      else r @ re_sub number_match r (Some c) (dropWhile is_digit cs))"
proof (cases "number_match p (c # cs)")
  case None
  then show ?thesis by (simp add: re_sub.simps(2))
next
  case (Some n)
  define ds where "ds = takeWhile is_digit (c # cs)"
  from Some have n: "n = length ds" and d: "is_digit c" and ne: "ds \<noteq> []"
    by (auto simp: number_match_alt ds_def split: if_splits)
  let ?last = "(c # cs) ! (min n (length (c # cs)) - 1)"
  have le: "n \<le> length (c # cs)" unfolding n ds_def by (rule length_takeWhile_le)
  have lt: "n - 1 < length ds" using ne n by (cases ds) auto
  have "?last = (c # cs) ! (n - 1)" using le by (simp add: min_def)
  also have "\<dots> = ds ! (n - 1)"
    using lt unfolding ds_def by (rule takeWhile_nth[symmetric])
  finally have "?last \<in> set ds" using lt by simp
  then have "is_digit ?last" unfolding ds_def by (rule set_takeWhileD[THEN conjunct2])
  then have w: "word_before (Some ?last) = word_before (Some c)"
    using d by (simp add: word_before_Some digit_is_word)
  have "drop n (c # cs) = dropWhile is_digit (c # cs)"
    unfolding n ds_def by (simp only: dropWhile_eq_drop)
  then have dr: "drop n (c # cs) = dropWhile is_digit cs" using d by simp
  have nz: "n \<noteq> 0" using ne n by simp
  have "re_sub number_match r p (c # cs)
          = r @ re_sub number_match r (Some ?last) (drop n (c # cs))"
    using Some nz by (simp add: re_sub.simps(2))
  also have "\<dots> = r @ re_sub number_match r (Some c) (dropWhile is_digit cs)"
    unfolding dr using number_sub_prev[OF w] by simp
  finally show ?thesis using Some by simp
qed

lemma number_sub_profile:
  assumes "word_before q"
  shows "takeWhile is_digit (re_sub number_match r q u) = takeWhile is_digit u
       \<and> boundary_after (dropWhile is_digit (re_sub number_match r q u))
           = boundary_after (dropWhile is_digit u)"
  using assms
proof (induction u arbitrary: q)
  case Nil
  show ?case by simp
next
  case (Cons c cs)
  have eq: "re_sub number_match r q (c # cs) = c # re_sub number_match r (Some c) cs"
    using Cons.prems by (simp add: number_sub_Cons number_match_word_before)
  show ?case
  proof (cases "is_digit c")
    case True
    then have "word_before (Some c)" by (simp add: word_before_Some digit_is_word)
    from Cons.IH[OF this] True show ?thesis by (simp add: eq)
  next
    case False
    then show ?thesis by (simp add: eq boundary_after_def)
  qed
qed

lemma number_search_token:
  "re_search number_match p (''number'' @ u) = re_search number_match (Some (CHR ''r'')) u"
  by (simp add: number_match_not_digit char_class_defs)

lemma number_sub_clean: "\<not> re_search number_match p (re_sub number_match ''number'' p t)"
proof (induction "length t" arbitrary: t p rule: less_induct)
  case less
  show ?case
  proof (cases t)
    case Nil
    then show ?thesis by simp
  next
    case (Cons c cs)
    show ?thesis
    proof (cases "number_match p (c # cs)")
      case None
      have head: "number_match p (c # re_sub number_match ''number'' (Some c) cs) = None"
      proof (cases "is_word c")
        case True
        then have "word_before (Some c)" by (simp add: word_before_Some)
        from number_sub_profile[OF this, of "''number''" cs]
        have "number_match p (c # re_sub number_match ''number'' (Some c) cs)
                = number_match p (c # cs)"
          by (intro number_match_profile) simp_all
        with None show ?thesis by simp
      next
        case False
        then have "\<not> is_digit c" using digit_is_word by blast
        then show ?thesis by (rule number_match_not_digit)
      qed
      have "\<not> re_search number_match (Some c) (re_sub number_match ''number'' (Some c) cs)"
        using Cons by (intro less) simp
      with head None Cons show ?thesis by (simp add: number_sub_Cons)
    next
      case (Some n)
      then have d: "is_digit c" by (auto simp: number_match_alt split: if_splits)
      have "length (dropWhile is_digit cs) < length t"
        using Cons length_dropWhile_le[of is_digit cs] by simp
      then have "\<not> re_search number_match (Some c)
                    (re_sub number_match ''number'' (Some c) (dropWhile is_digit cs))"
        by (rule less)
      moreover have "word_before (Some (CHR ''r'')) = word_before (Some c)"
        using d by (simp add: word_before_Some digit_is_word) (simp add: char_class_defs)
      ultimately have "\<not> re_search number_match (Some (CHR ''r''))
                    (re_sub number_match ''number'' (Some c) (dropWhile is_digit cs))"
        using number_search_prev by blast
      with Some Cons show ?thesis
        using number_search_token[of p
                "re_sub number_match ''number'' (Some c) (dropWhile is_digit cs)"]
        by (simp add: number_sub_Cons del: re_search.simps)
    qed
  qed
qed

subsubsection \<open>Later steps create no standalone number\<close>

lemma boundary_after_map:
  assumes "\<And>c. is_word (f c) = is_word c"
  shows "boundary_after (map f u) = boundary_after u"
  using assms by (cases u) (simp_all add: boundary_after_def)

lemma number_match_map:
  assumes d: "\<And>c. is_digit (f c) = is_digit c" and w: "\<And>c. is_word (f c) = is_word c"
  shows "number_match (map_option f p) (map f t) = number_match p t"
proof -
  have "is_digit \<circ> f = is_digit" using d by auto
  then have "takeWhile is_digit (map f t) = map f (takeWhile is_digit t)"
    and "dropWhile is_digit (map f t) = map f (dropWhile is_digit t)"
    by (simp_all add: takeWhile_map dropWhile_map)
  moreover have "word_before (map_option f p) = word_before p"
    using w by (cases p) (simp_all add: word_before_def)
  ultimately show ?thesis
    using boundary_after_map[of f, OF w] by (simp add: number_match_alt)
qed

lemma number_search_map:
  assumes d: "\<And>c. is_digit (f c) = is_digit c" and w: "\<And>c. is_word (f c) = is_word c"
  shows "re_search number_match (map_option f p) (map f t) = re_search number_match p t"
proof (induction t arbitrary: p)
  case Nil
  show ?case by simp
next
  case (Cons c cs)
  from number_match_map[of f p "c # cs", OF d w] Cons[of "Some c"]
  show ?case by simp
qed

lemma punctuation_sub_map:
  "re_sub punctuation_match '' '' p t
     = map (\<lambda>c. if \<not> is_word c \<and> \<not> is_space c then CHR '' '' else c) t"
  by (induction t arbitrary: p) (simp_all add: re_sub.simps(2) punctuation_match_def)

lemma punctuation_sub_clean:
  assumes "\<not> re_search number_match None t"
  shows "\<not> re_search number_match None (re_sub punctuation_match '' '' p t)"
proof -
  let ?f = "\<lambda>c. if \<not> is_word c \<and> \<not> is_space c then CHR '' '' else c"
  have d: "is_digit (?f c) = is_digit c" for c
    using digit_is_word[of c] by (auto simp: char_class_defs)
  have w: "is_word (?f c) = is_word c" for c
    by (auto simp: char_class_defs)
  from number_search_map[of ?f None t, OF d w] assms show ?thesis
    by (simp add: punctuation_sub_map)
qed

lemma whitespace_sub_prev:
  "re_sub whitespace_match r p t = re_sub whitespace_match r q t"
  by (cases t) (simp_all add: re_sub.simps(2) whitespace_match_def)

lemma whitespace_sub_Cons:
  "re_sub whitespace_match r p (c # cs) =
     (if is_space c then r @ re_sub whitespace_match r None (dropWhile is_space cs)
      else c # re_sub whitespace_match r None cs)"
proof (cases "is_space c")
  case True
  let ?n = "length (takeWhile is_space (c # cs))"
  have "drop ?n (c # cs) = dropWhile is_space (c # cs)"
    by (simp only: dropWhile_eq_drop)
  then have "drop ?n (c # cs) = dropWhile is_space cs" using True by simp
  moreover have "whitespace_match p (c # cs) = Some ?n" "?n \<noteq> 0"
    using True by (simp_all add: whitespace_match_def)
  ultimately show ?thesis
    using True whitespace_sub_prev[of r _ "dropWhile is_space cs" None]
    by (simp add: re_sub.simps(2))
next
  case False
  then show ?thesis
    using whitespace_sub_prev[of r "Some c" cs None]
    by (simp add: re_sub.simps(2) whitespace_match_def)
qed

lemma whitespace_sub_profile:
  "takeWhile is_digit (re_sub whitespace_match '' '' p u) = takeWhile is_digit u
   \<and> boundary_after (dropWhile is_digit (re_sub whitespace_match '' '' p u))
       = boundary_after (dropWhile is_digit u)"
proof (induction u arbitrary: p)
  case Nil
  show ?case by simp
next
  case (Cons c cs)
  show ?case
  proof (cases "is_space c")
    case True
    then have "\<not> is_digit c" "\<not> is_word c"
      by (simp_all add: space_not_digit space_not_word)
    with True show ?thesis
      by (simp add: whitespace_sub_Cons boundary_after_def char_class_defs)
  next
    case False
    with Cons[of None] show ?thesis
      by (simp add: whitespace_sub_Cons boundary_after_def)
  qed
qed

lemma number_search_skip_spaces:
  "\<not> word_before q \<Longrightarrow> \<not> re_search number_match q cs
     \<Longrightarrow> \<not> re_search number_match q (dropWhile is_space cs)"
proof (induction cs arbitrary: q)
  case Nil
  show ?case by simp
next
  case (Cons c cs)
  show ?case
  proof (cases "is_space c")
    case True
    then have nw: "\<not> word_before (Some c)"
      by (simp add: word_before_Some space_not_word)
    from Cons.prems have "\<not> re_search number_match (Some c) cs" by simp
    with nw have "\<not> re_search number_match (Some c) (dropWhile is_space cs)"
      by (rule Cons.IH)
    moreover have "word_before (Some c) = word_before q" using nw Cons.prems(1) by simp
    ultimately have "\<not> re_search number_match q (dropWhile is_space cs)"
      using number_search_prev by blast
    with True show ?thesis by simp
  next
    case False
    with Cons.prems show ?thesis by simp
  qed
qed

lemma whitespace_sub_clean:
  "\<not> re_search number_match q t
     \<Longrightarrow> \<not> re_search number_match q (re_sub whitespace_match '' '' p t)"
proof (induction "length t" arbitrary: t q p rule: less_induct)
  case less
  show ?case
  proof (cases t)
    case Nil
    then show ?thesis by simp
  next
    case (Cons c cs)
    show ?thesis
    proof (cases "is_space c")
      case True
      then have nw: "\<not> word_before (Some c)"
        by (simp add: word_before_Some space_not_word)
      from less.prems Cons have "\<not> re_search number_match (Some c) cs" by simp
      with nw have "\<not> re_search number_match (Some c) (dropWhile is_space cs)"
        by (rule number_search_skip_spaces)
      moreover have "length (dropWhile is_space cs) < length t"
        using Cons length_dropWhile_le[of is_space cs] by simp
      ultimately have "\<not> re_search number_match (Some c)
                         (re_sub whitespace_match '' '' None (dropWhile is_space cs))"
        by (intro less)
      moreover have "word_before (Some (CHR '' '')) = word_before (Some c)"
        using nw by (simp add: word_before_Some char_class_defs)
      ultimately have "\<not> re_search number_match (Some (CHR '' ''))
                         (re_sub whitespace_match '' '' None (dropWhile is_space cs))"
        using number_search_prev by blast
      with True Cons show ?thesis
        by (simp add: whitespace_sub_Cons number_match_not_digit char_class_defs)
    next
      case False
      from less.prems Cons have m: "number_match q (c # cs) = None"
        and rest: "\<not> re_search number_match (Some c) cs" by simp_all
      from whitespace_sub_profile[of None cs]
      have "number_match q (c # re_sub whitespace_match '' '' None cs) = number_match q (c # cs)"
        by (intro number_match_profile) simp_all
      moreover have "\<not> re_search number_match (Some c) (re_sub whitespace_match '' '' None cs)"
        using rest Cons by (intro less) simp
      ultimately show ?thesis using False Cons m by (simp add: whitespace_sub_Cons)
    qed
  qed
qed

lemma number_match_snoc_space:
  assumes "is_space c"
  shows "number_match p (xs @ [c]) = number_match p xs"
proof -
  have nd: "\<not> is_digit c" and nw: "\<not> is_word c"
    using assms by (simp_all add: space_not_digit space_not_word)
  have t: "takeWhile is_digit (xs @ [c]) = takeWhile is_digit xs"
    using nd by (induction xs) auto
  have "boundary_after (dropWhile is_digit (xs @ [c])) = boundary_after (dropWhile is_digit xs)"
    using nd nw by (induction xs) (auto simp: boundary_after_def)
  with t show ?thesis by (simp add: number_match_alt)
qed

lemma number_search_snoc_space:
  assumes "is_space c"
  shows "re_search number_match p (xs @ [c]) = re_search number_match p xs"
proof (induction xs arbitrary: p)
  case Nil
  show ?case using assms by (simp add: number_match_not_digit space_not_digit)
next
  case (Cons x xs)
  from number_match_snoc_space[OF assms, of p "x # xs"] Cons[of "Some x"]
  show ?case by simp
qed

lemma number_search_drop_trailing:
  "re_search number_match p (rev (dropWhile is_space (rev u))) = re_search number_match p u"
proof (induction u rule: rev_induct)
  case Nil
  show ?case by simp
next
  case (snoc c xs)
  then show ?case by (cases "is_space c") (simp_all add: number_search_snoc_space)
qed

lemma strip_clean:
  assumes "\<not> re_search number_match None t"
  shows "\<not> re_search number_match None (strip t)"
proof -
  have "\<not> word_before None" by (simp add: word_before_def)
  then have "\<not> re_search number_match None (dropWhile is_space t)"
    using assms by (rule number_search_skip_spaces)
  then show ?thesis by (simp add: strip_def number_search_drop_trailing)
qed

subsubsection \<open>Spacing\<close>

lemma whitespace_sub_head:
  "re_sub whitespace_match '' '' p (dropWhile is_space cs) = [] \<or>
   \<not> is_space (hd (re_sub whitespace_match '' '' p (dropWhile is_space cs)))"
proof (cases "dropWhile is_space cs")
  case Nil
  show ?thesis unfolding Nil by simp
next
  case (Cons b r)
  then have "\<not> is_space b" using hd_dropWhile[of is_space cs] by auto
  with Cons show ?thesis by (simp add: whitespace_sub_Cons)
qed

lemma whitespace_sub_single_spaced: "single_spaced (re_sub whitespace_match '' '' p t)"
proof (induction "length t" arbitrary: t p rule: less_induct)
  case less
  show ?case
  proof (cases t)
    case Nil
    then show ?thesis by simp
  next
    case (Cons c cs)
    show ?thesis
    proof (cases "is_space c")
      case True
      have "length (dropWhile is_space cs) < length t"
        using Cons length_dropWhile_le[of is_space cs] by simp
      then have "single_spaced (re_sub whitespace_match '' '' None (dropWhile is_space cs))"
        by (rule less)
      with True Cons whitespace_sub_head[of None cs] show ?thesis
        by (auto simp: whitespace_sub_Cons char_class_defs split: list.splits)
    next
      case False
      have "single_spaced (re_sub whitespace_match '' '' None cs)"
        using Cons by (intro less) simp
      with False Cons show ?thesis by (simp add: whitespace_sub_Cons)
    qed
  qed
qed

lemma single_spaced_fixed:
  "single_spaced u \<Longrightarrow> re_sub whitespace_match '' '' p u = u"
proof (induction u arbitrary: p)
  case Nil
  show ?case by simp
next
  case (Cons c cs)
  show ?case
  proof (cases "is_space c")
    case True
    with Cons.prems have c: "c = CHR '' ''" and d: "dropWhile is_space cs = cs"
      by (auto split: list.splits)
    from Cons.prems have "single_spaced cs" by simp
    then have "re_sub whitespace_match '' '' None cs = cs" by (rule Cons.IH)
    with True c d show ?thesis by (simp add: whitespace_sub_Cons)
  next
    case False
    from Cons.prems have "single_spaced cs" by simp
    then have "re_sub whitespace_match '' '' None cs = cs" by (rule Cons.IH)
    with False show ?thesis by (simp add: whitespace_sub_Cons)
  qed
qed

lemma single_spaced_append:
  "single_spaced (xs @ ys) \<Longrightarrow> single_spaced xs \<and> single_spaced ys"
proof (induction xs)
  case Nil
  then show ?case by simp
next
  case (Cons a xs)
  then show ?case by (cases xs) (auto split: list.splits if_splits)
qed

lemma single_spaced_strip:
  assumes "single_spaced u"
  shows "single_spaced (strip u)"
proof -
  let ?v = "dropWhile is_space u"
  have "u = takeWhile is_space u @ ?v" by simp
  with assms have "single_spaced (takeWhile is_space u @ ?v)" by simp
  then have v: "single_spaced ?v" by (blast dest: single_spaced_append)
  have "rev ?v = takeWhile is_space (rev ?v) @ dropWhile is_space (rev ?v)" by simp
  then have "rev (rev ?v) = rev (takeWhile is_space (rev ?v) @ dropWhile is_space (rev ?v))"
    by simp
  then have "?v = rev (dropWhile is_space (rev ?v)) @ rev (takeWhile is_space (rev ?v))"
    by (simp only: rev_rev_ident rev_append)
  with v have "single_spaced (rev (dropWhile is_space (rev ?v)) @ rev (takeWhile is_space (rev ?v)))"
    by simp
  then show ?thesis unfolding strip_def by (blast dest: single_spaced_append)
qed

lemma dropWhile_last: "dropWhile P xs \<noteq> [] \<Longrightarrow> last (dropWhile P xs) = last xs"
  by (induction xs) (auto split: if_splits)

lemma strip_ends:
  "strip u = [] \<or> (\<not> is_space (hd (strip u)) \<and> \<not> is_space (last (strip u)))"
proof (cases "strip u = []")
  case True
  then show ?thesis by simp
next
  case False
  let ?v = "dropWhile is_space u"
  let ?w = "dropWhile is_space (rev ?v)"
  from False have w: "?w \<noteq> []" by (simp add: strip_def)
  have v: "?v \<noteq> []"
  proof
    assume "?v = []"
    then have "?w = []" by (simp only: rev.simps dropWhile.simps)
    with w show False by contradiction
  qed
  have "last (strip u) = hd ?w" using w by (simp add: strip_def last_rev)
  moreover have "\<not> is_space (hd ?w)" using w by (rule hd_dropWhile)
  moreover have "hd (strip u) = last ?w" using w by (simp add: strip_def hd_rev)
  moreover have "last ?w = last (rev ?v)" using w by (rule dropWhile_last)
  moreover have "last (rev ?v) = hd ?v" using v by (simp add: last_rev)
  moreover have "\<not> is_space (hd ?v)" using v by (rule hd_dropWhile)
  ultimately show ?thesis by simp
qed

lemma strip_fixed:
  assumes "u = [] \<or> (\<not> is_space (hd u) \<and> \<not> is_space (last u))"
  shows "strip u = u"
proof (cases "u = []")
  case True
  then show ?thesis by (simp add: strip_def)
next
  case False
  with assms have h: "\<not> is_space (hd u)" and l: "\<not> is_space (last u)" by simp_all
  from h False have "dropWhile is_space u = u" by (cases u) auto
  moreover from l False have "dropWhile is_space (rev u) = rev u"
    by (cases "rev u") (auto simp: last_rev hd_rev dest: arg_cong[where f = hd])
  ultimately show ?thesis by (simp add: strip_def)
qed

lemma strip_strip: "strip (strip u) = strip u"
  using strip_ends[of u] by (rule strip_fixed)

lemma strip_chars: "set (strip u) \<subseteq> set u"
proof -
  have "set (strip u) \<subseteq> set (dropWhile is_space u)"
    unfolding strip_def using set_dropWhileD[of _ is_space "rev (dropWhile is_space u)"]
    by auto
  also have "\<dots> \<subseteq> set u" using set_dropWhileD[of _ is_space u] by auto
  finally show ?thesis .
qed

subsubsection \<open>Characters of the result\<close>

lemma single_spaced_space:
  "single_spaced u \<Longrightarrow> c \<in> set u \<Longrightarrow> is_space c \<Longrightarrow> c = CHR '' ''"
  by (induction u) (auto split: if_splits)

lemma re_sub_avoids:
  assumes "set t \<inter> A = {}" and "set repl \<inter> A = {}"
  shows "set (re_sub m repl prev t) \<inter> A = {}"
  using assms re_sub_chars[of m repl prev t] by blast

lemma generalize_text_chars:
  "set (generalize_text s) \<subseteq> set (ascii_lowercase @ digits @ ''_ '')"
proof -
  define U where "U = set ascii_uppercase"
  define t1 where "t1 = map lower_char s"
  define t2 where "t2 = re_sub ip_match ''ip address'' None t1"
  define t3 where "t3 = re_sub hex_match ''hex value'' None t2"
  define t4 where "t4 = re_sub path_match ''file path'' None t3"
  define t5 where "t5 = re_sub number_match ''number'' None t4"
  define t6 where "t6 = re_sub punctuation_match '' '' None t5"
  define t7 where "t7 = re_sub whitespace_match '' '' None t6"
  have g: "generalize_text s = strip t7"
    by (simp add: generalize_text_def Let_def t1_def t2_def t3_def t4_def t5_def t6_def t7_def)
  have "set t1 \<inter> U = {}"
    using lower_char_not_upper by (auto simp: t1_def U_def)
  then have "set t2 \<inter> U = {}"
    unfolding t2_def by (rule re_sub_avoids) (simp add: U_def ascii_uppercase_def)
  then have "set t3 \<inter> U = {}"
    unfolding t3_def by (rule re_sub_avoids) (simp add: U_def ascii_uppercase_def)
  then have "set t4 \<inter> U = {}"
    unfolding t4_def by (rule re_sub_avoids) (simp add: U_def ascii_uppercase_def)
  then have u5: "set t5 \<inter> U = {}"
    unfolding t5_def by (rule re_sub_avoids) (simp add: U_def ascii_uppercase_def)
  have t6: "t6 = map (\<lambda>c. if \<not> is_word c \<and> \<not> is_space c then CHR '' '' else c) t5"
    unfolding t6_def by (rule punctuation_sub_map)
  have sp: "CHR '' '' \<notin> U" "is_space (CHR '' '')"
    by (simp_all add: U_def char_class_defs)
  have c6: "c \<notin> U \<and> (is_word c \<or> is_space c)" if "c \<in> set t6" for c
    using that u5 sp unfolding t6 by auto
  have c7: "c \<notin> U \<and> (is_word c \<or> c = CHR '' '')" if "c \<in> set t7" for c
  proof -
    from that re_sub_chars[of whitespace_match "'' ''" None t6]
    have "c \<in> set t6 \<or> c = CHR '' ''" unfolding t7_def by auto
    with c6 sp have "c \<notin> U" and "is_word c \<or> is_space c" by auto
    moreover have "single_spaced t7" unfolding t7_def by (rule whitespace_sub_single_spaced)
    ultimately show ?thesis using that single_spaced_space by blast
  qed
  show ?thesis
  proof
    fix c assume "c \<in> set (generalize_text s)"
    then have "c \<in> set t7" using strip_chars[of t7] unfolding g by blast
    from c7[OF this] have "c \<notin> set ascii_uppercase" "is_word c \<or> c = CHR '' ''"
      by (simp_all add: U_def)
    then show "c \<in> set (ascii_lowercase @ digits @ ''_ '')"
      using word_not_upper[of c] by auto
  qed
qed

lemma generalize_text_no_number: "\<not> re_search number_match None (generalize_text s)"
proof -
  have "\<not> re_search number_match None
          (re_sub number_match ''number'' None
             (re_sub path_match ''file path'' None
                (re_sub hex_match ''hex value'' None
                   (re_sub ip_match ''ip address'' None (map lower_char s)))))"
    by (rule number_sub_clean)
  then have "\<not> re_search number_match None
          (re_sub punctuation_match '' '' None
            (re_sub number_match ''number'' None
             (re_sub path_match ''file path'' None
                (re_sub hex_match ''hex value'' None
                   (re_sub ip_match ''ip address'' None (map lower_char s))))))"
    by (rule punctuation_sub_clean)
  then have "\<not> re_search number_match None
         (re_sub whitespace_match '' '' None
          (re_sub punctuation_match '' '' None
            (re_sub number_match ''number'' None
             (re_sub path_match ''file path'' None
                (re_sub hex_match ''hex value'' None
                   (re_sub ip_match ''ip address'' None (map lower_char s)))))))"
    by (rule whitespace_sub_clean)
  then show ?thesis
    unfolding generalize_text_def Let_def by (rule strip_clean)
qed

lemma generalize_text_single_spaced: "single_spaced (generalize_text s)"
  unfolding generalize_text_def Let_def
  by (intro single_spaced_strip whitespace_sub_single_spaced)

lemma generalize_text_strip: "strip (generalize_text s) = generalize_text s"
  unfolding generalize_text_def Let_def by (rule strip_strip)

subsubsection \<open>Patterns that find nothing in a generalized text\<close>

lemma octet_dot_needs_dot: "CHR ''.'' \<notin> set u \<Longrightarrow> octet_dot u = None"
proof -
  assume no: "CHR ''.'' \<notin> set u"
  have "(case drop n u of [] \<Rightarrow> False | c # _ \<Rightarrow> c = CHR ''.'') = False" for n
  proof (cases "drop n u")
    case Nil
    then show ?thesis by simp
  next
    case (Cons c r)
    then have "c \<in> set (drop n u)" by simp
    then have "c \<in> set u" by (rule in_set_dropD)
    with no Cons show ?thesis by auto
  qed
  then show ?thesis by (simp add: octet_dot_def Let_def)
qed

lemma ip_match_needs_dot:
  assumes "CHR ''.'' \<notin> set u"
  shows "ip_match p u = None"
proof -
  have "octet_dot u = None" using assms by (rule octet_dot_needs_dot)
  then show ?thesis unfolding ip_match_def by (simp only: option.case if_cancel)
qed

lemma path_match_needs_slash: "CHR ''/'' \<notin> set u \<Longrightarrow> path_match p u = None"
  by (cases u) (auto simp: path_match_def)

lemma punctuation_match_needs_punctuation:
  "\<forall>c \<in> set u. is_word c \<or> is_space c \<Longrightarrow> punctuation_match p u = None"
  by (cases u) (auto simp: punctuation_match_def)

lemma generalized_char:
  assumes "c \<in> set (ascii_lowercase @ digits @ ''_ '')"
  shows "c \<notin> set ascii_uppercase" and "c \<noteq> CHR ''.''" and "c \<noteq> CHR ''/''"
    and "is_word c \<or> is_space c"
  using assms by (auto simp: char_class_defs)

lemma generalized_fixed:
  assumes chars: "set t \<subseteq> set (ascii_lowercase @ digits @ ''_ '')"
    and number: "\<not> re_search number_match None t"
    and hex: "\<not> re_search hex_match None t"
    and spaced: "single_spaced t"
    and stripped: "strip t = t"
  shows "generalize_text t = t"
proof -
  have sub: "c \<in> set (ascii_lowercase @ digits @ ''_ '')" if "set u \<subseteq> set t" "c \<in> set u" for u c
    using that chars by blast
  have 1: "map lower_char t = t"
  proof (rule map_idI)
    fix c assume "c \<in> set t"
    then have "c \<in> set (ascii_lowercase @ digits @ ''_ '')" using chars by blast
    then have "c \<notin> set ascii_uppercase" by (rule generalized_char)
    then show "lower_char c = c" by (rule lower_char_id)
  qed
  have "\<not> re_search ip_match None t"
  proof (rule re_search_never[where S = "set t"])
    fix p u assume u: "set u \<subseteq> set t"
    have "CHR ''.'' \<notin> set u"
    proof
      assume "CHR ''.'' \<in> set u"
      from sub[OF u this] generalized_char(2) show False by blast
    qed
    then show "ip_match p u = None" by (rule ip_match_needs_dot)
  qed (rule subset_refl)
  then have 2: "re_sub ip_match ''ip address'' None t = t" by (rule re_sub_no_match)
  from hex have 3: "re_sub hex_match ''hex value'' None t = t" by (rule re_sub_no_match)
  have "\<not> re_search path_match None t"
  proof (rule re_search_never[where S = "set t"])
    fix p u assume u: "set u \<subseteq> set t"
    have "CHR ''/'' \<notin> set u"
    proof
      assume "CHR ''/'' \<in> set u"
      from sub[OF u this] generalized_char(3) show False by blast
    qed
    then show "path_match p u = None" by (rule path_match_needs_slash)
  qed (rule subset_refl)
  then have 4: "re_sub path_match ''file path'' None t = t" by (rule re_sub_no_match)
  from number have 5: "re_sub number_match ''number'' None t = t" by (rule re_sub_no_match)
  have "\<not> re_search punctuation_match None t"
  proof (rule re_search_never[where S = "set t"])
    fix p u assume u: "set u \<subseteq> set t"
    have "\<forall>c \<in> set u. is_word c \<or> is_space c"
      using sub[OF u] generalized_char(4) by blast
    then show "punctuation_match p u = None" by (rule punctuation_match_needs_punctuation)
  qed (rule subset_refl)
  then have 6: "re_sub punctuation_match '' '' None t = t" by (rule re_sub_no_match)
  from spaced have 7: "re_sub whitespace_match '' '' None t = t" by (rule single_spaced_fixed)
  show ?thesis
    unfolding generalize_text_def Let_def 1 2 3 4 5 6 7 by (rule stripped)
qed

subsection \<open>The generalizer\<close>

lemmas generalize_eval = generalize_text_def re_sub.simps ip_match_def hex_match_def
  path_match_def number_match_def punctuation_match_def whitespace_match_def strip_def
  octet_dot_def digit_run_def word_before_def boundary_after_def lower_char_def
  char_class_defs Let_def

text \<open>
  Claim C6, as amended. For every string of ASCII characters the generalized text
  consists of lower-case ASCII letters, digits, underscores and spaces only, so it holds
  no punctuation other than the underscore; and it holds no standalone number:
  \<open>\b\d+\b\<close> matches nowhere in it. Digits inside a word, as in \<open>abc123\<close>, stay.
  Nothing is stated of a string with a character outside ASCII.
\<close>

theorem generalize_message_output_form:
  assumes "list_all is_ascii s"
  shows "set (generalize_message (Str s)) \<subseteq> set (ascii_lowercase @ digits @ ''_ '')
       \<and> \<not> re_search number_match None (generalize_message (Str s))"
  using generalize_text_chars[of s] generalize_text_no_number[of s] by simp

text \<open>The instance: a message with a line number and a path.\<close>

theorem generalize_message_output_form_witness:
  "list_all is_ascii ''Error at line 42 in /var/log/app.log''
   \<and> generalize_message (Str ''Error at line 42 in /var/log/app.log'')
       = ''error at line number in file path''
   \<and> set (generalize_message (Str ''Error at line 42 in /var/log/app.log''))
       \<subseteq> set (ascii_lowercase @ digits @ ''_ '')
   \<and> \<not> re_search number_match None
         (generalize_message (Str ''Error at line 42 in /var/log/app.log''))"
proof -
  have a: "list_all is_ascii ''Error at line 42 in /var/log/app.log''"
    by (simp add: is_ascii_def)
  have g: "generalize_message (Str ''Error at line 42 in /var/log/app.log'')
             = ''error at line number in file path''"
    by (simp add: generalize_eval)
  from generalize_message_output_form[OF a] a g show ?thesis by simp
qed

text \<open>
  Claim C6 as stated fails: digits that are part of a word are not a number for
  \<open>\b\d+\b\<close>, and the underscore is a word character for \<open>[^\w\s]\<close>.
\<close>

theorem generalize_message_keeps_digits_in_words:
  "generalize_message (Str ''abc123 x_1'') = ''abc123 x_1''
   \<and> list_ex is_digit (generalize_message (Str ''abc123 x_1''))
   \<and> CHR ''_'' \<in> set (generalize_message (Str ''abc123 x_1''))"
  by (simp add: generalize_eval)

text \<open>
  Claim C5, as amended. For every string of ASCII characters whose generalized text
  holds no hexadecimal literal, that is, in which \<open>0x[0-9a-f]+\<close> matches nowhere,
  generalizing the generalized text again changes nothing. Nothing is stated of a string
  with a character outside ASCII.
\<close>

theorem generalize_message_idempotent_without_hex:
  assumes "list_all is_ascii s"
    and "\<not> re_search hex_match None (generalize_message (Str s))"
  shows "generalize_message (Str (generalize_message (Str s))) = generalize_message (Str s)"
proof -
  have "generalize_text (generalize_text s) = generalize_text s"
    using generalize_text_chars generalize_text_no_number _ generalize_text_single_spaced
      generalize_text_strip
  proof (rule generalized_fixed)
    show "\<not> re_search hex_match None (generalize_text s)" using assms(2) by simp
  qed
  then show ?thesis by simp
qed

text \<open>The instance: the third example of the docstring is a fixed point after one pass.\<close>

theorem generalize_message_idempotent_without_hex_witness:
  "list_all is_ascii ''Memory address 0xABCD1234''
   \<and> generalize_message (Str ''Memory address 0xABCD1234'') = ''memory address hex value''
   \<and> \<not> re_search hex_match None (generalize_message (Str ''Memory address 0xABCD1234''))
   \<and> generalize_message (Str (generalize_message (Str ''Memory address 0xABCD1234'')))
       = ''memory address hex value''"
proof -
  have a: "list_all is_ascii ''Memory address 0xABCD1234''"
    by (simp add: is_ascii_def)
  have g: "generalize_message (Str ''Memory address 0xABCD1234'') = ''memory address hex value''"
    by (simp add: generalize_eval)
  have h: "\<not> re_search hex_match None (generalize_message (Str ''Memory address 0xABCD1234''))"
    unfolding g by (simp add: hex_match_def is_hex_digit_def)
  from generalize_message_idempotent_without_hex[OF a h] a g h show ?thesis by simp
qed

text \<open>
  Claim C5 as stated fails: the path substitution writes \<open>file path\<close> behind \<open>0x\<close>,
  and on the second pass \<open>0xf\<close> is a hexadecimal literal.
\<close>

theorem generalize_message_not_idempotent:
  "generalize_message (Str ''0x/a'') = ''0xfile path''
   \<and> generalize_message (Str (generalize_message (Str ''0x/a''))) = ''hex valueile path''
   \<and> generalize_message (Str (generalize_message (Str ''0x/a'')))
       \<noteq> generalize_message (Str ''0x/a'')"
  by (simp add: generalize_eval)

subsection \<open>Further properties\<close>

text \<open>
  The frame returned by \<open>process_all_logs_for_case\<close> is in ascending \<open>Timestamp\<close>
  order and holds exactly the retained entries whose timestamp pandas could read.
\<close>

theorem process_all_logs_for_case_sorted:
  "sorted (map Timestamp (process_all_logs_for_case to_datetime log_files))
   \<and> mset (process_all_logs_for_case to_datetime log_files)
       = mset (List.map_filter (with_datetime to_datetime) (all_logs log_files))"
  by (simp add: process_all_logs_for_case_def Let_def sort_values_def map_filter_simps)

lemma map_filter_all2:
  assumes "\<And>x y. x \<in> set xs \<Longrightarrow> f x = Some y \<Longrightarrow> R y x"
  shows "list_all2 R (List.map_filter f xs) (filter (\<lambda>x. f x \<noteq> None) xs)"
  using assms by (induction xs) (auto simp: map_filter_simps split: option.splits)

lemma find_drop_duplicates:
  "find (\<lambda>r. k r = v) (drop_duplicates k rs) = find (\<lambda>r. k r = v) rs"
proof -
  have f: "find P ys = (case filter P ys of [] \<Rightarrow> None | y # _ \<Rightarrow> Some y)" for P and ys :: "'c list"
    by (induction ys) auto
  show ?thesis
    by (subst f) (simp add: drop_duplicates_filter split: option.splits)
qed

lemma error_map_Some:
  assumes "error_map logs pid = Some e"
  shows "e \<in> set logs \<and> is_classified_error e \<and> final_problem_id e = pid
       \<and> (\<forall>e' \<in> set logs. is_classified_error e' \<and> final_problem_id e' = pid
             \<longrightarrow> Timestamp e \<le> Timestamp e')"
proof -
  let ?sorted = "sort_values Timestamp (filter is_classified_error logs)"
  from assms have f: "find (\<lambda>e. final_problem_id e = pid) ?sorted = Some e"
    by (simp add: error_map_def error_details_def find_drop_duplicates)
  then have "e \<in> set ?sorted" "final_problem_id e = pid"
    by (auto simp: find_Some_iff)
  then have 1: "e \<in> set logs" "is_classified_error e" "final_problem_id e = pid"
    by (auto simp: sort_values_set)
  have "Timestamp e \<le> Timestamp e'"
    if "e' \<in> set logs" "is_classified_error e'" "final_problem_id e' = pid" for e'
    using sorted_find_least[OF sort_values_sorted f, of e'] that
    by (simp add: sort_values_set)
  with 1 show ?thesis by blast
qed

lemma error_map_None:
  "error_map logs pid = None
     \<longleftrightarrow> \<not> (\<exists>e \<in> set logs. is_classified_error e \<and> final_problem_id e = pid)"
  by (auto simp: error_map_def error_details_def find_drop_duplicates find_None_iff
        sort_values_set)

text \<open>
  The rows of the primary report correspond, one to one and in order, to the
  de-duplicated reportable WARNINGs whose problem id has a classified ERROR; a row
  carries the WARNING's ids and raw log, and the file, line and raw log of an ERROR of
  that problem of least timestamp.
\<close>

theorem primary_report_rows_join:
  "list_all2
     (\<lambda>(row::report_row) w.
        report_anomaly_id row = final_anomaly_id w
      \<and> report_problem_id row = final_problem_id w
      \<and> anomaly_log row = log w
      \<and> (\<exists>e \<in> set classified_logs.
             is_classified_error e \<and> final_problem_id e = final_problem_id w
           \<and> error_file_name row = file_name e \<and> error_line_number row = line_number e
           \<and> error_log row = log e
           \<and> (\<forall>e' \<in> set classified_logs.
                 is_classified_error e' \<and> final_problem_id e' = final_problem_id w
                 \<longrightarrow> Timestamp e \<le> Timestamp e')))
     (primary_report_rows classified_logs case_name)
     (filter (\<lambda>w. \<exists>e \<in> set classified_logs.
                is_classified_error e \<and> final_problem_id e = final_problem_id w)
        (reportable_warnings classified_logs))"
proof -
  let ?f = "\<lambda>w. case error_map classified_logs (final_problem_id w) of
              None \<Rightarrow> None
            | Some e \<Rightarrow>
                Some \<lparr>report_scenario_id = scenario_id_of case_name,
                      report_anomaly_id = final_anomaly_id w,
                      report_problem_id = final_problem_id w,
                      error_file_name = file_name e,
                      error_line_number = line_number e,
                      error_log = log e,
                      anomaly_log = log w\<rparr>"
  have keep: "(?f w \<noteq> None)
      = (\<exists>e \<in> set classified_logs.
            is_classified_error e \<and> final_problem_id e = final_problem_id w)" for w
    using error_map_None[of classified_logs "final_problem_id w"]
    by (auto split: option.splits)
  have "list_all2
     (\<lambda>(row::report_row) w.
        report_anomaly_id row = final_anomaly_id w
      \<and> report_problem_id row = final_problem_id w
      \<and> anomaly_log row = log w
      \<and> (\<exists>e \<in> set classified_logs.
             is_classified_error e \<and> final_problem_id e = final_problem_id w
           \<and> error_file_name row = file_name e \<and> error_line_number row = line_number e
           \<and> error_log row = log e
           \<and> (\<forall>e' \<in> set classified_logs.
                 is_classified_error e' \<and> final_problem_id e' = final_problem_id w
                 \<longrightarrow> Timestamp e \<le> Timestamp e')))
     (List.map_filter ?f (reportable_warnings classified_logs))
     (filter (\<lambda>w. ?f w \<noteq> None) (reportable_warnings classified_logs))"
  proof (rule map_filter_all2)
    fix w row
    assume "?f w = Some row"
    then obtain e where e: "error_map classified_logs (final_problem_id w) = Some e"
      and row: "row = \<lparr>report_scenario_id = scenario_id_of case_name,
                      report_anomaly_id = final_anomaly_id w,
                      report_problem_id = final_problem_id w,
                      error_file_name = file_name e,
                      error_line_number = line_number e,
                      error_log = log e,
                      anomaly_log = log w\<rparr>"
      by (auto split: option.splits)
    from error_map_Some[OF e] show "report_anomaly_id row = final_anomaly_id w
      \<and> report_problem_id row = final_problem_id w
      \<and> anomaly_log row = log w
      \<and> (\<exists>e \<in> set classified_logs.
             is_classified_error e \<and> final_problem_id e = final_problem_id w
           \<and> error_file_name row = file_name e \<and> error_line_number row = line_number e
           \<and> error_log row = log e
           \<and> (\<forall>e' \<in> set classified_logs.
                 is_classified_error e' \<and> final_problem_id e' = final_problem_id w
                 \<longrightarrow> Timestamp e \<le> Timestamp e'))"
      unfolding row by auto
  qed
  then show ?thesis unfolding primary_report_rows_def keep .
qed

text \<open>
  The instance, the end-to-end example of the specification: two ERRORs of problem 10
  (\<open>t = 0\<close> and \<open>t = 5\<close>) and WARNINGs of anomaly 1 (\<open>t = 1\<close>, \<open>t = 2\<close>) and anomaly 2
  (\<open>t = 3\<close>) give two rows, both with the ERROR of \<open>t = 0\<close> as root cause.
\<close>

theorem primary_report_rows_join_witness:
  "primary_report_rows example_logs ''case13''
     = [\<lparr>report_scenario_id = ''13'', report_anomaly_id = 1, report_problem_id = 10,
         error_file_name = ''a.txt'', error_line_number = 1, error_log = ''e'',
         anomaly_log = ''w''\<rparr>,
        \<lparr>report_scenario_id = ''13'', report_anomaly_id = 2, report_problem_id = 10,
         error_file_name = ''a.txt'', error_line_number = 1, error_log = ''e'',
         anomaly_log = ''w''\<rparr>]
   \<and> length (filter (\<lambda>w. \<exists>e \<in> set example_logs.
                is_classified_error e \<and> final_problem_id e = final_problem_id w)
        (reportable_warnings example_logs)) = 2"
proof -
  have r: "primary_report_rows example_logs ''case13''
     = [\<lparr>report_scenario_id = ''13'', report_anomaly_id = 1, report_problem_id = 10,
         error_file_name = ''a.txt'', error_line_number = 1, error_log = ''e'',
         anomaly_log = ''w''\<rparr>,
        \<lparr>report_scenario_id = ''13'', report_anomaly_id = 2, report_problem_id = 10,
         error_file_name = ''a.txt'', error_line_number = 1, error_log = ''e'',
         anomaly_log = ''w''\<rparr>]"
    by (simp add: primary_report_rows_def error_map_def error_details_def
        reportable_warnings_def drop_duplicates_def sort_values_def map_filter_simps
        scenario_id_of_def is_digit_def digits_def is_classified_error_def example_simps)
  from primary_report_rows_join[of example_logs "''case13''"]
  have "length (primary_report_rows example_logs ''case13'')
        = length (filter (\<lambda>w. \<exists>e \<in> set example_logs.
                is_classified_error e \<and> final_problem_id e = final_problem_id w)
        (reportable_warnings example_logs))"
    by (rule list_all2_lengthD)
  with r show ?thesis by simp
qed

subsection \<open>One row of the primary report per reported pair\<close>

lemma filter_map_filter:
  assumes "\<And>x y. x \<in> set xs \<Longrightarrow> f x = Some y \<Longrightarrow> P y = Q x"
  shows "filter P (List.map_filter f xs) = List.map_filter f (filter Q xs)"
  using assms by (induction xs) (auto simp: map_filter_simps split: option.splits)

lemma report_rows_of_pair:
  "filter (\<lambda>row. (report_anomaly_id row, report_problem_id row) = anomaly_problem_pair w)
     (primary_report_rows classified_logs case_name)
   = (case find (\<lambda>x. is_reportable_warning x
                     \<and> anomaly_problem_pair x = anomaly_problem_pair w) classified_logs of
        None \<Rightarrow> []
      | Some r \<Rightarrow>
          (case error_map classified_logs (final_problem_id r) of
             None \<Rightarrow> []
           | Some e \<Rightarrow>
               [\<lparr>report_scenario_id = scenario_id_of case_name,
                 report_anomaly_id = final_anomaly_id r,
                 report_problem_id = final_problem_id r,
                 error_file_name = file_name e,
                 error_line_number = line_number e,
                 error_log = log e,
                 anomaly_log = log r\<rparr>]))"
proof -
  let ?f = "\<lambda>w. case error_map classified_logs (final_problem_id w) of
              None \<Rightarrow> None
            | Some e \<Rightarrow>
                Some \<lparr>report_scenario_id = scenario_id_of case_name,
                      report_anomaly_id = final_anomaly_id w,
                      report_problem_id = final_problem_id w,
                      error_file_name = file_name e,
                      error_line_number = line_number e,
                      error_log = log e,
                      anomaly_log = log w\<rparr>"
  let ?P = "\<lambda>row::report_row.
              (report_anomaly_id row, report_problem_id row) = anomaly_problem_pair w"
  let ?Q = "\<lambda>x. anomaly_problem_pair x = anomaly_problem_pair w"
  have "filter ?P (List.map_filter ?f (reportable_warnings classified_logs))
          = List.map_filter ?f (filter ?Q (reportable_warnings classified_logs))"
    by (rule filter_map_filter) (auto simp: anomaly_problem_pair_def split: option.splits)
  also have "filter ?Q (reportable_warnings classified_logs)
          = (case find (\<lambda>x. is_reportable_warning x \<and> ?Q x) classified_logs of
               None \<Rightarrow> [] | Some r \<Rightarrow> [r])"
    by (simp add: reportable_warnings_eq drop_duplicates_filter find_filter_conj)
  finally show ?thesis
    by (simp add: primary_report_rows_def map_filter_simps split: option.splits)
qed

text \<open>
  Claim C1, as amended. On a table in ascending \<open>Timestamp\<close> order, take a WARNING
  with a non-zero problem id. Its \<open>(final_anomaly_id, final_problem_id)\<close> pair has a
  first occurrence among such WARNINGs, and no occurrence of the pair is earlier. When
  some ERROR is classified to the problem id, the primary report holds exactly one row
  with that pair, and the row carries the raw log of the first occurrence; when no ERROR
  is classified to the problem id, the report holds no row with that pair. Every row of
  the report carries the pair of some WARNING with a non-zero problem id.
\<close>

theorem primary_report_one_row_per_pair:
  assumes "sorted (map Timestamp classified_logs)"
    and "w \<in> set classified_logs" and "is_reportable_warning w"
  shows "\<exists>r. find (\<lambda>x. is_reportable_warning x
                      \<and> anomaly_problem_pair x = anomaly_problem_pair w) classified_logs
               = Some r
          \<and> (\<forall>w' \<in> set classified_logs.
                is_reportable_warning w' \<and> anomaly_problem_pair w' = anomaly_problem_pair w
                \<longrightarrow> Timestamp r \<le> Timestamp w')
          \<and> (if \<exists>e \<in> set classified_logs.
                   is_classified_error e \<and> final_problem_id e = final_problem_id w
              then \<exists>row. filter (\<lambda>row. (report_anomaly_id row, report_problem_id row)
                                         = anomaly_problem_pair w)
                             (primary_report_rows classified_logs case_name) = [row]
                         \<and> anomaly_log row = log r
              else filter (\<lambda>row. (report_anomaly_id row, report_problem_id row)
                                  = anomaly_problem_pair w)
                     (primary_report_rows classified_logs case_name) = [])
          \<and> (\<forall>row \<in> set (primary_report_rows classified_logs case_name).
                \<exists>v \<in> set classified_logs.
                  is_reportable_warning v
                \<and> anomaly_problem_pair v = (report_anomaly_id row, report_problem_id row))"
proof -
  let ?Q = "\<lambda>x. is_reportable_warning x \<and> anomaly_problem_pair x = anomaly_problem_pair w"
  let ?rows = "primary_report_rows classified_logs case_name"
  let ?mine = "filter (\<lambda>row. (report_anomaly_id row, report_problem_id row)
                               = anomaly_problem_pair w) ?rows"
  from assms(2,3) have "\<exists>x \<in> set classified_logs. ?Q x" by blast
  then obtain r where r: "find ?Q classified_logs = Some r"
    by (cases "find ?Q classified_logs") (auto simp: find_None_iff)
  then have rp: "anomaly_problem_pair r = anomaly_problem_pair w"
    by (auto simp: find_Some_iff)
  then have pid: "final_problem_id r = final_problem_id w"
    by (simp add: anomaly_problem_pair_def)
  have least: "\<forall>w' \<in> set classified_logs. ?Q w' \<longrightarrow> Timestamp r \<le> Timestamp w'"
    using sorted_find_least[OF assms(1) r] by blast
  have mine: "?mine = (case error_map classified_logs (final_problem_id w) of
             None \<Rightarrow> []
           | Some e \<Rightarrow>
               [\<lparr>report_scenario_id = scenario_id_of case_name,
                 report_anomaly_id = final_anomaly_id r,
                 report_problem_id = final_problem_id r,
                 error_file_name = file_name e,
                 error_line_number = line_number e,
                 error_log = log e,
                 anomaly_log = log r\<rparr>])"
    by (simp add: report_rows_of_pair r pid)
  have rows: "if \<exists>e \<in> set classified_logs.
                   is_classified_error e \<and> final_problem_id e = final_problem_id w
              then \<exists>row. ?mine = [row] \<and> anomaly_log row = log r
              else ?mine = []"
  proof (cases "error_map classified_logs (final_problem_id w)")
    case None
    then have "\<not> (\<exists>e \<in> set classified_logs.
                   is_classified_error e \<and> final_problem_id e = final_problem_id w)"
      by (simp add: error_map_None)
    moreover from None mine have "?mine = []" by simp
    ultimately show ?thesis by simp
  next
    case (Some e)
    then have "error_map classified_logs (final_problem_id w) \<noteq> None" by simp
    then have "\<exists>e \<in> set classified_logs.
                   is_classified_error e \<and> final_problem_id e = final_problem_id w"
      by (simp add: error_map_None)
    moreover from Some mine have "\<exists>row. ?mine = [row] \<and> anomaly_log row = log r" by simp
    ultimately show ?thesis by simp
  qed
  have origin: "\<exists>v \<in> set classified_logs.
                  is_reportable_warning v
                \<and> anomaly_problem_pair v = (report_anomaly_id row, report_problem_id row)"
    if "row \<in> set ?rows" for row
  proof -
    from that obtain v where v: "v \<in> set (reportable_warnings classified_logs)"
      and "(case error_map classified_logs (final_problem_id v) of
              None \<Rightarrow> None
            | Some e \<Rightarrow>
                Some \<lparr>report_scenario_id = scenario_id_of case_name,
                      report_anomaly_id = final_anomaly_id v,
                      report_problem_id = final_problem_id v,
                      error_file_name = file_name e,
                      error_line_number = line_number e,
                      error_log = log e,
                      anomaly_log = log v\<rparr>) = Some row"
      by (auto simp: primary_report_rows_def List.map_filter_def)
    then have "anomaly_problem_pair v = (report_anomaly_id row, report_problem_id row)"
      by (auto simp: anomaly_problem_pair_def split: option.splits)
    moreover from v have "v \<in> set classified_logs" "is_reportable_warning v"
      using drop_duplicates_subset[of anomaly_problem_pair
              "filter is_reportable_warning classified_logs"]
      by (auto simp: reportable_warnings_eq)
    ultimately show ?thesis by blast
  qed
  from r least rows origin show ?thesis by blast
qed

text \<open>
  The instance: after an ERROR of problem 10, the pair (1, 10) reported at \<open>t = 1\<close> and
  \<open>t = 2\<close> gives one row, with the raw log of \<open>t = 1\<close>.
\<close>

lemmas repeated_simps = repeated_logs_def repeated_warnings_def example_warning_def
  example_error_def is_reportable_warning_def is_classified_error_def
  anomaly_problem_pair_def

theorem primary_report_one_row_per_pair_witness:
  "sorted (map Timestamp repeated_logs)
   \<and> (example_warning 2 1 10 ''b.txt'')\<lparr>log := ''second''\<rparr> \<in> set repeated_logs
   \<and> is_reportable_warning ((example_warning 2 1 10 ''b.txt'')\<lparr>log := ''second''\<rparr>)
   \<and> is_classified_error (example_error 0 10 ''a.txt'')
   \<and> primary_report_rows repeated_logs ''case13''
       = [\<lparr>report_scenario_id = ''13'', report_anomaly_id = 1, report_problem_id = 10,
           error_file_name = ''a.txt'', error_line_number = 1, error_log = ''e'',
           anomaly_log = ''first''\<rparr>]"
proof -
  let ?w = "(example_warning 2 1 10 ''b.txt'')\<lparr>log := ''second''\<rparr>"
  have s: "sorted (map Timestamp repeated_logs)" by (simp add: repeated_simps)
  have m: "?w \<in> set repeated_logs" by (simp add: repeated_simps)
  have p: "is_reportable_warning ?w" by (simp add: repeated_simps)
  have e: "is_classified_error (example_error 0 10 ''a.txt'')" by (simp add: repeated_simps)
  have rows: "primary_report_rows repeated_logs ''case13''
       = [\<lparr>report_scenario_id = ''13'', report_anomaly_id = 1, report_problem_id = 10,
           error_file_name = ''a.txt'', error_line_number = 1, error_log = ''e'',
           anomaly_log = ''first''\<rparr>]"
    by (simp add: primary_report_rows_def error_map_def error_details_def
        reportable_warnings_def drop_duplicates_def sort_values_def map_filter_simps
        scenario_id_of_def is_digit_def digits_def repeated_simps)
  from primary_report_one_row_per_pair[OF s m p, of "''case13''"] s m p e rows
  show ?thesis by simp
qed

text \<open>
  Claim C1 as stated promises one row for every reported pair. Without an ERROR
  classified to problem 10 the join finds no root cause, and the report is empty although
  the pair (1, 10) was reported twice.
\<close>

theorem primary_report_empty_without_error:
  "sorted (map Timestamp repeated_warnings)
   \<and> list_all is_reportable_warning repeated_warnings
   \<and> reportable_warnings repeated_warnings
       = [(example_warning 1 1 10 ''a.txt'')\<lparr>log := ''first''\<rparr>]
   \<and> primary_report_rows repeated_warnings ''case13'' = []"
  by (simp add: primary_report_rows_def error_map_def error_details_def
        reportable_warnings_def drop_duplicates_def sort_values_def map_filter_simps
        repeated_warnings_def example_warning_def example_error_def
        is_reportable_warning_def is_classified_error_def anomaly_problem_pair_def)

end
